theory Spec2Isabelle
  imports Complex_Main "HOL-Library.AList"
begin

section \<open>Scoring (core/utils.py)\<close>

text \<open>
  Python floats are idealised as the reals, and a \<open>datetime\<close> is the number of seconds
  since a fixed epoch, so that \<open>(a - b).total_seconds()\<close> is \<open>a - b\<close>. Every call of
  \<open>datetime.now()\<close> is an explicit argument. \<open>math.log\<close> raises \<open>ValueError\<close> on a
  non-positive argument; that is the value \<open>None\<close> here.
\<close>

definition math_log :: "real \<Rightarrow> real option" where
  "math_log x = (if 0 < x then Some (ln x) else None)"

definition compute_recency_factor :: "real \<Rightarrow> real \<Rightarrow> real \<Rightarrow> real" where
  "compute_recency_factor now last_accessed time_decay_lambda =
     (let delta_t_hours = (now - last_accessed) / 3600
      in exp (- time_decay_lambda * delta_t_hours))"

definition compute_weighted_score ::
  "real \<Rightarrow> real \<Rightarrow> int \<Rightarrow> int \<Rightarrow> real \<Rightarrow> real \<Rightarrow> real \<Rightarrow> real option" where
  "compute_weighted_score now similarity reuse_count provide_context_count last_accessed
       reuse_context_factor time_decay_lambda =
     (let delta_t = (now - last_accessed) / 3600;
          recency_factor = exp (- time_decay_lambda * delta_t);
          weighted_count = reuse_context_factor * real_of_int reuse_count
                         + (1 - reuse_context_factor) * real_of_int provide_context_count
      in case math_log (weighted_count + 1) of
           None \<Rightarrow> None
         | Some l \<Rightarrow> Some (similarity + min (l / ln 100) 1 * recency_factor))"


section \<open>Data model (core/models.py)\<close>

text \<open>
  \<open>input_args\<close> is a dictionary from argument names to values; \<open>output\<close> is an opaque
  payload, kept as a string. The stored form of an entry (\<open>to_dict\<close> / \<open>from_dict\<close>) keeps
  every field, so the storage below holds the entry itself. The fields \<open>id\<close> and
  \<open>output\<close> of the source are \<open>entry_id\<close> and \<open>entry_output\<close> here.
\<close>

type_synonym args = "(string \<times> string) list"

record CacheEntry =
  entry_id :: string
  uuid :: string
  tool_name :: string
  input_text :: string
  input_args :: args
  entry_output :: string
  embedding :: "real list option"
  reuse_count :: int
  provide_context_count :: int
  created_at :: real
  last_accessed_at :: real
  success :: bool

definition total_reference_count :: "CacheEntry \<Rightarrow> int" where
  "total_reference_count e = reuse_count e + provide_context_count e"

definition entry_increment_reuse :: "real \<Rightarrow> CacheEntry \<Rightarrow> CacheEntry" where
  "entry_increment_reuse now e = e\<lparr>reuse_count := reuse_count e + 1, last_accessed_at := now\<rparr>"

definition entry_increment_context :: "real \<Rightarrow> CacheEntry \<Rightarrow> CacheEntry" where
  "entry_increment_context now e =
     e\<lparr>provide_context_count := provide_context_count e + 1, last_accessed_at := now\<rparr>"

record CacheHit =
  entry :: CacheEntry
  similarity :: real
  weighted_score :: real

definition should_reuse :: "CacheHit \<Rightarrow> bool" where
  "should_reuse h = (95 / 100 \<le> similarity h)"

section \<open>Configuration (core/config.py)\<close>

record CacheConfig =
  similarity_threshold :: real
  reuse_threshold :: real
  max_cache_size :: int
  reuse_context_factor :: real
  time_decay_lambda :: real
  top_k :: int
  eviction_policy :: string

text \<open>The field constraints and the model validator of \<open>CacheConfig\<close>.\<close>

definition config_valid :: "CacheConfig \<Rightarrow> bool" where
  "config_valid cfg =
     (0 \<le> similarity_threshold cfg \<and> similarity_threshold cfg \<le> 1 \<and>
      0 \<le> reuse_threshold cfg \<and> reuse_threshold cfg \<le> 1 \<and>
      0 < max_cache_size cfg \<and>
      0 \<le> reuse_context_factor cfg \<and> reuse_context_factor cfg \<le> 1 \<and>
      0 \<le> time_decay_lambda cfg \<and>
      0 < top_k cfg \<and>
      eviction_policy cfg \<in> set [''lru'', ''lfu'', ''fifo'', ''score''] \<and>
      similarity_threshold cfg \<le> reuse_threshold cfg)"

section \<open>In-memory storage backend (core/storage/memory.py)\<close>

text \<open>
  The two dictionaries \<open>_data\<close> and \<open>_scores\<close> are association lists in insertion order:
  assigning to a present key keeps its place, assigning to a new key appends, \<open>pop\<close> removes.
  A method that returns a value and mutates returns the pair of the value and the new store.
\<close>

record MemoryStorageBackend =
  data :: "(string \<times> CacheEntry) list"
  scores :: "(string \<times> real) list"

definition ms_get :: "MemoryStorageBackend \<Rightarrow> string \<Rightarrow> CacheEntry option" where
  "ms_get s key = map_of (data s) key"

definition ms_set :: "MemoryStorageBackend \<Rightarrow> string \<Rightarrow> CacheEntry \<Rightarrow> real \<Rightarrow> MemoryStorageBackend" where
  "ms_set s key val score =
     s\<lparr>data := AList.update key val (data s), scores := AList.update key score (scores s)\<rparr>"

definition ms_delete :: "MemoryStorageBackend \<Rightarrow> string \<Rightarrow> bool \<times> MemoryStorageBackend" where
  "ms_delete s key =
     (map_of (data s) key \<noteq> None,
      s\<lparr>data := AList.delete key (data s), scores := AList.delete key (scores s)\<rparr>)"

definition ms_exists :: "MemoryStorageBackend \<Rightarrow> string \<Rightarrow> bool" where
  "ms_exists s key = (map_of (data s) key \<noteq> None)"

definition ms_keys :: "MemoryStorageBackend \<Rightarrow> string list" where
  "ms_keys s = map fst (data s)"

definition ms_clear :: "MemoryStorageBackend \<Rightarrow> MemoryStorageBackend" where
  "ms_clear s = s\<lparr>data := [], scores := []\<rparr>"

definition ms_size :: "MemoryStorageBackend \<Rightarrow> int" where
  "ms_size s = int (length (data s))"

definition ms_update_score :: "MemoryStorageBackend \<Rightarrow> string \<Rightarrow> real \<Rightarrow> bool \<times> MemoryStorageBackend" where
  "ms_update_score s key score =
     (if map_of (data s) key = None then (False, s)
      else (True, s\<lparr>scores := AList.update key score (scores s)\<rparr>))"

definition ms_get_score :: "MemoryStorageBackend \<Rightarrow> string \<Rightarrow> real option" where
  "ms_get_score s key = map_of (scores s) key"

definition ms_update_access_time :: "real \<Rightarrow> MemoryStorageBackend \<Rightarrow> string \<Rightarrow> bool \<times> MemoryStorageBackend" where
  "ms_update_access_time now s key =
     (case map_of (data s) key of
        None \<Rightarrow> (False, s)
      | Some e \<Rightarrow> (True, s\<lparr>data := AList.update key (e\<lparr>last_accessed_at := now\<rparr>) (data s)\<rparr>))"

definition ms_increment_reuse :: "real \<Rightarrow> MemoryStorageBackend \<Rightarrow> string \<Rightarrow> bool \<times> MemoryStorageBackend" where
  "ms_increment_reuse now s key =
     (case map_of (data s) key of
        None \<Rightarrow> (False, s)
      | Some e \<Rightarrow>
          (True, s\<lparr>data := AList.update key
                     (e\<lparr>reuse_count := reuse_count e + 1, last_accessed_at := now\<rparr>) (data s)\<rparr>))"

definition ms_increment_context :: "real \<Rightarrow> MemoryStorageBackend \<Rightarrow> string \<Rightarrow> bool \<times> MemoryStorageBackend" where
  "ms_increment_context now s key =
     (case map_of (data s) key of
        None \<Rightarrow> (False, s)
      | Some e \<Rightarrow>
          (True, s\<lparr>data := AList.update key
                     (e\<lparr>provide_context_count := provide_context_count e + 1,
                        last_accessed_at := now\<rparr>) (data s)\<rparr>))"

definition ms_decrement_reference :: "MemoryStorageBackend \<Rightarrow> string \<Rightarrow> bool \<times> MemoryStorageBackend" where
  "ms_decrement_reference s key =
     (case map_of (data s) key of
        None \<Rightarrow> (False, s)
      | Some e \<Rightarrow>
          (True,
           if 0 < reuse_count e
           then s\<lparr>data := AList.update key (e\<lparr>reuse_count := reuse_count e - 1\<rparr>) (data s)\<rparr>
           else if 0 < provide_context_count e
           then s\<lparr>data := AList.update key
                      (e\<lparr>provide_context_count := provide_context_count e - 1\<rparr>) (data s)\<rparr>
           else s))"

text \<open>The slice \<open>xs[:n]\<close> of Python, for any integer \<open>n\<close>.\<close>

definition py_prefix :: "int \<Rightarrow> 'a list \<Rightarrow> 'a list" where
  "py_prefix n xs = (if 0 \<le> n then take (nat n) xs else take (length xs - nat (- n)) xs)"

text \<open>\<open>sorted\<close> and \<open>list.sort\<close> with a key are stable, as \<open>sort_key\<close> is.\<close>

definition get_bottom_by_score :: "MemoryStorageBackend \<Rightarrow> int \<Rightarrow> string list" where
  "get_bottom_by_score s n = map fst (py_prefix n (sort_key snd (scores s)))"

definition get_oldest_by_access :: "MemoryStorageBackend \<Rightarrow> int \<Rightarrow> string list" where
  "get_oldest_by_access s n =
     map fst (py_prefix n (sort_key snd (map (\<lambda>(key, e). (key, last_accessed_at e)) (data s))))"

definition get_least_used :: "MemoryStorageBackend \<Rightarrow> int \<Rightarrow> string list" where
  "get_least_used s n =
     map fst (py_prefix n (sort_key snd
       (map (\<lambda>(key, e). (key, reuse_count e + provide_context_count e)) (data s))))"

definition get_oldest_by_creation :: "MemoryStorageBackend \<Rightarrow> int \<Rightarrow> string list" where
  "get_oldest_by_creation s n =
     map fst (py_prefix n (sort_key snd (map (\<lambda>(key, e). (key, created_at e)) (data s))))"

section \<open>Vector index (core/storage/vector.py)\<close>

text \<open>
  The vector index is an external collaborator. Its contents are the records added and not
  yet deleted, keyed by id: the embedding, the document and the \<open>tool_name\<close> metadata. Its
  nearest-neighbour query is a parameter of the development (\<open>vs_search\<close> below).
\<close>

type_synonym vrecord = "real list \<times> string \<times> string"

type_synonym VectorStore = "(string \<times> vrecord) list"

definition vs_add :: "string \<Rightarrow> real list \<Rightarrow> string \<Rightarrow> string \<Rightarrow> VectorStore \<Rightarrow> VectorStore" where
  "vs_add key emb doc tname vs = AList.update key (emb, doc, tname) vs"

definition vs_delete :: "string \<Rightarrow> VectorStore \<Rightarrow> VectorStore" where
  "vs_delete key vs = AList.delete key vs"

definition vs_contains :: "VectorStore \<Rightarrow> string \<Rightarrow> bool" where
  "vs_contains vs key = (map_of vs key \<noteq> None)"

section \<open>Collaborators and the cache state\<close>

text \<open>
  What the engine does not compute itself is a parameter: the SHA-256 hex digest, the
  canonical JSON serialisation, the embedding function and the index query. The clock, the
  random UUID and the failures of the two guarded backend writes are read from sequences
  indexed by a step counter kept in the cache state; every reading advances the counter, so
  successive readings are independent.
\<close>

record collaborators =
  sha256_hexdigest :: "string \<Rightarrow> string"
  json_dumps :: "args \<Rightarrow> string"
  embed :: "string \<Rightarrow> real list"
  vs_search :: "VectorStore \<Rightarrow> real list \<Rightarrow> int \<Rightarrow> string \<Rightarrow> (string \<times> real) list"
  clock :: "nat \<Rightarrow> real"
  uuid4 :: "nat \<Rightarrow> string"
  set_raises :: "nat \<Rightarrow> bool"
  vdelete_raises :: "nat \<Rightarrow> bool"

datatype error = ValueError | StorageError | VectorStoreError

record ToolCache =
  storage :: MemoryStorageBackend
  vector_store :: VectorStore
  steps :: nat

definition empty_cache :: ToolCache where
  "empty_cache = \<lparr>storage = \<lparr>data = [], scores = []\<rparr>, vector_store = [], steps = 0\<rparr>"

definition generate_cache_id :: "collaborators \<Rightarrow> string \<Rightarrow> string \<Rightarrow> string" where
  "generate_cache_id E tname text = take 16 (sha256_hexdigest E (tname @ '':'' @ text))"

definition serialize_args :: "collaborators \<Rightarrow> args \<Rightarrow> string" where
  "serialize_args E a = json_dumps E a"

section \<open>ToolCache (core/cache.py)\<close>

definition compute_entry_score :: "CacheConfig \<Rightarrow> real \<Rightarrow> CacheEntry \<Rightarrow> real \<Rightarrow> real option" where
  "compute_entry_score cfg now e sim =
     compute_weighted_score now sim (reuse_count e) (provide_context_count e)
       (last_accessed_at e) (reuse_context_factor cfg) (time_decay_lambda cfg)"

text \<open>
  The loop of \<open>search\<close> over the candidates of the index. A candidate missing from storage is
  pruned from the index, a failure of that delete being swallowed.
\<close>

fun search_loop ::
  "collaborators \<Rightarrow> CacheConfig \<Rightarrow> (string \<times> real) list \<Rightarrow> ToolCache \<Rightarrow> (error + CacheHit list) \<times> ToolCache" where
  "search_loop E cfg [] c = (Inr [], c)"
| "search_loop E cfg ((key, distance) # rest) c =
     (case ms_get (storage c) key of
        None \<Rightarrow>
          search_loop E cfg rest
            (if \<not> ms_exists (storage c) key
             then (if vdelete_raises E (steps c) then c\<lparr>steps := Suc (steps c)\<rparr>
                   else c\<lparr>vector_store := vs_delete key (vector_store c), steps := Suc (steps c)\<rparr>)
             else c)
      | Some e \<Rightarrow>
          (let sim = 1 - distance in
           if sim < similarity_threshold cfg then search_loop E cfg rest c
           else (case compute_weighted_score (clock E (steps c)) sim (reuse_count e)
                        (provide_context_count e) (last_accessed_at e)
                        (reuse_context_factor cfg) (time_decay_lambda cfg) of
                   None \<Rightarrow> (Inl ValueError, c\<lparr>steps := Suc (steps c)\<rparr>)
                 | Some w \<Rightarrow>
                     (case search_loop E cfg rest (c\<lparr>steps := Suc (steps c)\<rparr>) of
                        (Inl err, c') \<Rightarrow> (Inl err, c')
                      | (Inr hits, c') \<Rightarrow>
                          (Inr (\<lparr>entry = e, similarity = sim, weighted_score = w\<rparr> # hits), c')))))"

definition search ::
  "collaborators \<Rightarrow> CacheConfig \<Rightarrow> string \<Rightarrow> args \<Rightarrow> int option \<Rightarrow> ToolCache \<Rightarrow> (error + CacheHit list) \<times> ToolCache" where
  "search E cfg tname iargs top_k_arg c =
     (let text = serialize_args E iargs;
          emb = embed E text;
          k = (case top_k_arg of None \<Rightarrow> top_k cfg | Some v \<Rightarrow> if v = 0 then top_k cfg else v);
          results = vs_search E (vector_store c) emb k tname
      in if results = [] then (Inr [], c)
         else (case search_loop E cfg results c of
                 (Inl err, c') \<Rightarrow> (Inl err, c')
               | (Inr hits, c') \<Rightarrow> (Inr (sort_key (\<lambda>h. - weighted_score h) hits), c')))"

definition touch_entry :: "collaborators \<Rightarrow> CacheConfig \<Rightarrow> string \<Rightarrow> ToolCache \<Rightarrow> error option \<times> ToolCache" where
  "touch_entry E cfg key c =
     (case ms_update_access_time (clock E (steps c)) (storage c) key of
        (updated, s1) \<Rightarrow>
          if \<not> updated then (None, c)
          else (let c1 = c\<lparr>storage := s1, steps := Suc (steps c)\<rparr> in
                case ms_get s1 key of
                  None \<Rightarrow> (None, c1)
                | Some e \<Rightarrow>
                    (case compute_entry_score cfg (clock E (steps c1)) e 1 of
                       None \<Rightarrow> (Some ValueError, c1\<lparr>steps := Suc (steps c1)\<rparr>)
                     | Some sc \<Rightarrow>
                         (None, c1\<lparr>storage := snd (ms_update_score s1 key sc),
                                   steps := Suc (steps c1)\<rparr>))))"

definition get_best_match ::
  "collaborators \<Rightarrow> CacheConfig \<Rightarrow> string \<Rightarrow> args \<Rightarrow> ToolCache \<Rightarrow> (error + CacheHit option) \<times> ToolCache" where
  "get_best_match E cfg tname iargs c =
     (case search E cfg tname iargs (Some 1) c of
        (Inl err, c1) \<Rightarrow> (Inl err, c1)
      | (Inr hits, c1) \<Rightarrow>
          (case hits of
             [] \<Rightarrow> (Inr None, c1)
           | h # _ \<Rightarrow>
               if similarity_threshold cfg \<le> similarity h
               then (case touch_entry E cfg (entry_id (entry h)) c1 of
                       (Some err, c2) \<Rightarrow> (Inl err, c2)
                     | (None, c2) \<Rightarrow> (Inr (Some h), c2))
               else (Inr None, c1)))"

definition evict_entry :: "collaborators \<Rightarrow> string \<Rightarrow> ToolCache \<Rightarrow> error option \<times> ToolCache" where
  "evict_entry E key c =
     (if ms_exists (storage c) key
      then (let c1 = c\<lparr>storage := snd (ms_delete (storage c) key)\<rparr> in
            if vdelete_raises E (steps c1)
            then (Some VectorStoreError, c1\<lparr>steps := Suc (steps c1)\<rparr>)
            else (None, c1\<lparr>vector_store := vs_delete key (vector_store c1),
                          steps := Suc (steps c1)\<rparr>))
      else (None, c))"

fun evict_all :: "collaborators \<Rightarrow> string list \<Rightarrow> ToolCache \<Rightarrow> error option \<times> ToolCache" where
  "evict_all E [] c = (None, c)"
| "evict_all E (key # keys) c =
     (case evict_entry E key c of
        (Some err, c') \<Rightarrow> (Some err, c')
      | (None, c') \<Rightarrow> evict_all E keys c')"

definition maybe_evict :: "collaborators \<Rightarrow> CacheConfig \<Rightarrow> ToolCache \<Rightarrow> error option \<times> ToolCache" where
  "maybe_evict E cfg c =
     (if ms_size (storage c) \<le> max_cache_size cfg then (None, c)
      else (let num_to_evict = ms_size (storage c) - max_cache_size cfg;
                evict_keys =
                  (if eviction_policy cfg = ''score'' then get_bottom_by_score (storage c) num_to_evict
                   else if eviction_policy cfg = ''lru'' then get_oldest_by_access (storage c) num_to_evict
                   else if eviction_policy cfg = ''lfu'' then get_least_used (storage c) num_to_evict
                   else get_oldest_by_creation (storage c) num_to_evict)
            in evict_all E evict_keys c))"

text \<open>
  The constructor call \<open>CacheEntry(id=..., ..., success=success)\<close> of \<open>save\<close>: the
  defaults of the dataclass give the UUID, zero counters and the two timestamps, each read
  from the clock in turn.
\<close>

definition fresh_entry ::
  "collaborators \<Rightarrow> string \<Rightarrow> args \<Rightarrow> string \<Rightarrow> bool \<Rightarrow> ToolCache \<Rightarrow> CacheEntry" where
  "fresh_entry E tname iargs out succ c =
     \<lparr>entry_id = generate_cache_id E tname (serialize_args E iargs), uuid = uuid4 E (steps c),
      tool_name = tname, input_text = serialize_args E iargs, input_args = iargs,
      entry_output = out, embedding = Some (embed E (serialize_args E iargs)),
      reuse_count = 0, provide_context_count = 0, created_at = clock E (steps c + 1),
      last_accessed_at = clock E (steps c + 2), success = succ\<rparr>"

definition save ::
  "collaborators \<Rightarrow> CacheConfig \<Rightarrow> string \<Rightarrow> args \<Rightarrow> string \<Rightarrow> bool \<Rightarrow> ToolCache \<Rightarrow> (error + CacheEntry) \<times> ToolCache" where
  "save E cfg tname iargs out succ c =
     (let text = serialize_args E iargs;
          key = generate_cache_id E tname text
      in case ms_get (storage c) key of
           Some existing \<Rightarrow>
             (let e = existing\<lparr>entry_output := out, success := succ,
                               last_accessed_at := clock E (steps c)\<rparr>;
                  c1 = c\<lparr>steps := Suc (steps c)\<rparr>
              in case compute_entry_score cfg (clock E (steps c1)) e 1 of
                   None \<Rightarrow> (Inl ValueError, c1\<lparr>steps := Suc (steps c1)\<rparr>)
                 | Some sc \<Rightarrow>
                     (let c2 = c1\<lparr>steps := Suc (steps c1)\<rparr> in
                      if set_raises E (steps c2)
                      then (Inl StorageError, c2\<lparr>steps := Suc (steps c2)\<rparr>)
                      else (Inr e, c2\<lparr>storage := ms_set (storage c2) key e sc,
                                      steps := Suc (steps c2)\<rparr>)))
         | None \<Rightarrow>
             (let emb = embed E text;
                  e = fresh_entry E tname iargs out succ c;
                  c1 = c\<lparr>steps := steps c + 3\<rparr>
              in case compute_entry_score cfg (clock E (steps c1)) e 1 of
                   None \<Rightarrow> (Inl ValueError, c1\<lparr>steps := Suc (steps c1)\<rparr>)
                 | Some sc \<Rightarrow>
                     (let c2 = c1\<lparr>vector_store := vs_add key emb text tname (vector_store c1),
                                  steps := Suc (steps c1)\<rparr>
                      in if set_raises E (steps c2)
                         then (Inl StorageError,
                               if vdelete_raises E (Suc (steps c2))
                               then c2\<lparr>steps := steps c2 + 2\<rparr>
                               else c2\<lparr>vector_store := vs_delete key (vector_store c2),
                                       steps := steps c2 + 2\<rparr>)
                         else (case maybe_evict E cfg
                                      (c2\<lparr>storage := ms_set (storage c2) key e sc,
                                          steps := Suc (steps c2)\<rparr>) of
                                 (Some err, c4) \<Rightarrow> (Inl err, c4)
                               | (None, c4) \<Rightarrow> (Inr e, c4)))))"

definition increment_reuse ::
  "collaborators \<Rightarrow> CacheConfig \<Rightarrow> string \<Rightarrow> ToolCache \<Rightarrow> (error + bool) \<times> ToolCache" where
  "increment_reuse E cfg key c =
     (case ms_increment_reuse (clock E (steps c)) (storage c) key of
        (ok, s1) \<Rightarrow>
          if \<not> ok then (Inr False, c)
          else (let c1 = c\<lparr>storage := s1, steps := Suc (steps c)\<rparr> in
                case ms_get s1 key of
                  None \<Rightarrow> (Inr True, c1)
                | Some e \<Rightarrow>
                    (case compute_entry_score cfg (clock E (steps c1)) e 1 of
                       None \<Rightarrow> (Inl ValueError, c1\<lparr>steps := Suc (steps c1)\<rparr>)
                     | Some sc \<Rightarrow>
                         (Inr True, c1\<lparr>storage := snd (ms_update_score s1 key sc),
                                       steps := Suc (steps c1)\<rparr>))))"

definition increment_context ::
  "collaborators \<Rightarrow> CacheConfig \<Rightarrow> string \<Rightarrow> ToolCache \<Rightarrow> (error + bool) \<times> ToolCache" where
  "increment_context E cfg key c =
     (case ms_increment_context (clock E (steps c)) (storage c) key of
        (ok, s1) \<Rightarrow>
          if \<not> ok then (Inr False, c)
          else (let c1 = c\<lparr>storage := s1, steps := Suc (steps c)\<rparr> in
                case ms_get s1 key of
                  None \<Rightarrow> (Inr True, c1)
                | Some e \<Rightarrow>
                    (case compute_entry_score cfg (clock E (steps c1)) e 1 of
                       None \<Rightarrow> (Inl ValueError, c1\<lparr>steps := Suc (steps c1)\<rparr>)
                     | Some sc \<Rightarrow>
                         (Inr True, c1\<lparr>storage := snd (ms_update_score s1 key sc),
                                       steps := Suc (steps c1)\<rparr>))))"

definition clear :: "ToolCache \<Rightarrow> ToolCache" where
  "clear c = c\<lparr>storage := ms_clear (storage c), vector_store := []\<rparr>"

text \<open>The dictionary returned by \<open>stats\<close>, as the list of its items.\<close>

datatype stat_value = IntVal int | FloatVal real

fun stats_loop :: "MemoryStorageBackend \<Rightarrow> string list \<Rightarrow> int \<times> int \<times> int \<Rightarrow> int \<times> int \<times> int" where
  "stats_loop s [] acc = acc"
| "stats_loop s (key # keys) (total_reuse, total_context, max_refs) =
     (case ms_get s key of
        None \<Rightarrow> stats_loop s keys (total_reuse, total_context, max_refs)
      | Some e \<Rightarrow>
          stats_loop s keys
            (total_reuse + reuse_count e, total_context + provide_context_count e,
             max max_refs (reuse_count e + provide_context_count e)))"

definition stats :: "ToolCache \<Rightarrow> (string \<times> stat_value) list" where
  "stats c =
     (let entries = ms_keys (storage c) in
      if entries = [] then
        [(''total_entries'', IntVal 0),
         (''total_reuse_count'', IntVal 0),
         (''total_context_count'', IntVal 0),
         (''total_references'', IntVal 0),
         (''avg_reference_count'', FloatVal 0)]
      else
        (case stats_loop (storage c) entries (0, 0, 0) of
           (total_reuse, total_context, max_refs) \<Rightarrow>
             (let total_refs = total_reuse + total_context in
              [(''total_entries'', IntVal (int (length entries))),
               (''total_reuse_count'', IntVal total_reuse),
               (''total_context_count'', IntVal total_context),
               (''total_references'', IntVal total_refs),
               (''avg_reference_count'', FloatVal (real_of_int total_refs / real (length entries))),
               (''max_reference_count'', IntVal max_refs)])))"

section \<open>Decision engine (interceptor/wrapper.py)\<close>

datatype CacheDecision = REUSE | PROVIDE_CONTEXT | EXECUTE

record DecisionResult =
  decision :: CacheDecision
  cache_hit :: "CacheHit option"
  context_hints :: "CacheHit list option"

fun increment_context_all ::
  "collaborators \<Rightarrow> CacheConfig \<Rightarrow> CacheHit list \<Rightarrow> ToolCache \<Rightarrow> error option \<times> ToolCache" where
  "increment_context_all E cfg [] c = (None, c)"
| "increment_context_all E cfg (h # hs) c =
     (case increment_context E cfg (entry_id (entry h)) c of
        (Inl err, c') \<Rightarrow> (Some err, c')
      | (Inr _, c') \<Rightarrow> increment_context_all E cfg hs c')"

text \<open>
  The interceptor holds a configuration of its own (\<open>icfg\<close>), whose thresholds classify the
  hits; the cache searches and scores with the cache's configuration (\<open>cfg\<close>).
\<close>

definition decide ::
  "collaborators \<Rightarrow> CacheConfig \<Rightarrow> CacheConfig \<Rightarrow> string \<Rightarrow> args \<Rightarrow> ToolCache \<Rightarrow> (error + DecisionResult) \<times> ToolCache" where
  "decide E icfg cfg tname iargs c =
     (case search E cfg tname iargs None c of
        (Inl err, c1) \<Rightarrow> (Inl err, c1)
      | (Inr hits, c1) \<Rightarrow>
          (case hits of
             [] \<Rightarrow> (Inr \<lparr>decision = EXECUTE, cache_hit = None, context_hints = None\<rparr>, c1)
           | best_hit # _ \<Rightarrow>
               if reuse_threshold icfg \<le> similarity best_hit
               then (case increment_reuse E cfg (entry_id (entry best_hit)) c1 of
                       (Inl err, c2) \<Rightarrow> (Inl err, c2)
                     | (Inr _, c2) \<Rightarrow>
                         (Inr \<lparr>decision = REUSE, cache_hit = Some best_hit,
                               context_hints = None\<rparr>, c2))
               else if similarity_threshold icfg \<le> similarity best_hit
                       \<and> filter (\<lambda>h. success (entry h)) hits \<noteq> []
               then (let hints = take 3 (filter (\<lambda>h. success (entry h)) hits) in
                     case increment_context_all E cfg hints c1 of
                       (Some err, c2) \<Rightarrow> (Inl err, c2)
                     | (None, c2) \<Rightarrow>
                         (Inr \<lparr>decision = PROVIDE_CONTEXT, cache_hit = None,
                               context_hints = Some hints\<rparr>, c2))
               else (Inr \<lparr>decision = EXECUTE, cache_hit = None, context_hints = None\<rparr>, c1)))"

section \<open>Reachable cache states\<close>

text \<open>
  The operations a caller can issue on a cache (the decrement is issued on the storage
  backend the cache exposes). A state is reachable when a sequence of operations leads to
  it from the empty cache; an operation that raises leaves the state it had reached.
\<close>

datatype operation =
    OpSave string args string bool
  | OpSearch string args "int option"
  | OpGetBestMatch string args
  | OpIncrementReuse string
  | OpIncrementContext string
  | OpDecrementReference string
  | OpDecide CacheConfig string args
  | OpClear

fun apply_op :: "collaborators \<Rightarrow> CacheConfig \<Rightarrow> operation \<Rightarrow> ToolCache \<Rightarrow> ToolCache" where
  "apply_op E cfg (OpSave tname iargs out succ) c = snd (save E cfg tname iargs out succ c)"
| "apply_op E cfg (OpSearch tname iargs k) c = snd (search E cfg tname iargs k c)"
| "apply_op E cfg (OpGetBestMatch tname iargs) c = snd (get_best_match E cfg tname iargs c)"
| "apply_op E cfg (OpIncrementReuse key) c = snd (increment_reuse E cfg key c)"
| "apply_op E cfg (OpIncrementContext key) c = snd (increment_context E cfg key c)"
| "apply_op E cfg (OpDecrementReference key) c =
     c\<lparr>storage := snd (ms_decrement_reference (storage c) key)\<rparr>"
| "apply_op E cfg (OpDecide icfg tname iargs) c = snd (decide E icfg cfg tname iargs c)"
| "apply_op E cfg OpClear c = clear c"

inductive reachable :: "collaborators \<Rightarrow> CacheConfig \<Rightarrow> ToolCache \<Rightarrow> bool"
  for E :: collaborators and cfg :: CacheConfig where
  reachable_empty: "reachable E cfg empty_cache"
| reachable_step: "reachable E cfg c \<Longrightarrow> reachable E cfg (apply_op E cfg op c)"

text \<open>The keys \<open>_maybe_evict\<close> selects under the configured policy.\<close>

definition evict_keys_of :: "CacheConfig \<Rightarrow> MemoryStorageBackend \<Rightarrow> int \<Rightarrow> string list" where
  "evict_keys_of cfg s n =
     (if eviction_policy cfg = ''score'' then get_bottom_by_score s n
      else if eviction_policy cfg = ''lru'' then get_oldest_by_access s n
      else if eviction_policy cfg = ''lfu'' then get_least_used s n
      else get_oldest_by_creation s n)"

text \<open>
  The save stores a new entry and the eviction that ends it selects that very entry: the key
  is not stored yet, the storage holding the new entry exceeds \<open>max_cache_size\<close>, and the key
  is among those \<open>_maybe_evict\<close> takes from the storage holding the new entry.
\<close>

definition evicts_saved_entry ::
  "collaborators \<Rightarrow> CacheConfig \<Rightarrow> string \<Rightarrow> args \<Rightarrow> string \<Rightarrow> bool \<Rightarrow> ToolCache \<Rightarrow> bool" where
  "evicts_saved_entry E cfg tname iargs out succ c =
     (let key = generate_cache_id E tname (serialize_args E iargs);
          s3 = ms_set (storage c) key (fresh_entry E tname iargs out succ c) 1
      in ms_get (storage c) key = None \<and> max_cache_size cfg < ms_size s3
         \<and> key \<in> set (evict_keys_of cfg s3 (ms_size s3 - max_cache_size cfg)))"

section \<open>Well-formed storage\<close>

text \<open>
  The representation invariant of the storage: the keys of \<open>_data\<close> are pairwise distinct (it
  is a dictionary), \<open>_scores\<close> has the same keys in the same order, every entry is stored
  under its own id, and no counter is negative.
\<close>

definition storage_ok :: "MemoryStorageBackend \<Rightarrow> bool" where
  "storage_ok s =
     (distinct (map fst (data s)) \<and> map fst (scores s) = map fst (data s) \<and>
      list_all (\<lambda>(key, e). entry_id e = key \<and> 0 \<le> reuse_count e \<and> 0 \<le> provide_context_count e)
        (data s))"

text \<open>The two counters of the entry stored under a key, if any.\<close>

definition counters :: "MemoryStorageBackend \<Rightarrow> string \<Rightarrow> (int \<times> int) option" where
  "counters s key = map_option (\<lambda>e. (reuse_count e, provide_context_count e)) (ms_get s key)"

text \<open>Every entry of the first store is in the second one, with counters at least as large.\<close>

definition counters_grow :: "MemoryStorageBackend \<Rightarrow> MemoryStorageBackend \<Rightarrow> bool" where
  "counters_grow s s' =
     (\<forall>k e. ms_get s k = Some e \<longrightarrow>
        (\<exists>e'. ms_get s' k = Some e' \<and> reuse_count e \<le> reuse_count e'
              \<and> provide_context_count e \<le> provide_context_count e'))"

section \<open>A concrete instance for evaluation\<close>

text \<open>
  Concrete collaborators on which the definitions can be evaluated. On the three argument
  dictionaries \<open>{"query": "a"}\<close>, \<open>{"query": "b"}\<close> and \<open>{"query": "c"}\<close> of the tool
  \<open>search\<close> the serialisation and the digest are those of \<open>json.dumps\<close> and SHA-256. The
  embedding has one coordinate, the index returns the records of the tool nearest first
  with the distance of the coordinates, the clock advances by one second per reading and no
  backend call fails.
\<close>

definition dq :: char where
  "dq = CHR 0x22"

definition demo_json_dumps :: "args \<Rightarrow> string" where
  "demo_json_dumps a =
     (case a of
        [(k, v)] \<Rightarrow> ''{'' @ [dq] @ k @ [dq] @ '': '' @ [dq] @ v @ [dq] @ ''}''
      | _ \<Rightarrow> ''{}'')"

definition demo_sha256 :: "string \<Rightarrow> string" where
  "demo_sha256 s =
     (if s = ''search:{'' @ [dq] @ ''query'' @ [dq] @ '': '' @ [dq] @ ''a'' @ [dq] @ ''}''
      then ''1d3c9c989c7f3c455088ed24429bf740a5bb20610994b2f1804a26386843d821''
      else if s = ''search:{'' @ [dq] @ ''query'' @ [dq] @ '': '' @ [dq] @ ''b'' @ [dq] @ ''}''
      then ''050cc0d6adfcc13c60ea65009ab082becfa771340e9ff78a20ecf4a4bbc491b7''
      else if s = ''search:{'' @ [dq] @ ''query'' @ [dq] @ '': '' @ [dq] @ ''c'' @ [dq] @ ''}''
      then ''886539f05207eaa3da85d9ff0576bc69a45bd111bcd812e4a77ffa0bc6a0f300''
      else replicate 64 (CHR ''0''))"

definition demo_embed :: "string \<Rightarrow> real list" where
  "demo_embed t =
     (if t = demo_json_dumps [(''query'', ''a'')] then [0]
      else if t = demo_json_dumps [(''query'', ''b'')] then [1 / 10]
      else if t = demo_json_dumps [(''query'', ''c'')] then [1 / 2]
      else [1])"

definition first_coord :: "real list \<Rightarrow> real" where
  "first_coord v = (case v of [] \<Rightarrow> 0 | x # _ \<Rightarrow> x)"

definition demo_vs_search :: "VectorStore \<Rightarrow> real list \<Rightarrow> int \<Rightarrow> string \<Rightarrow> (string \<times> real) list" where
  "demo_vs_search vs q k tname =
     take (nat k)
       (sort_key snd
          (map (\<lambda>(key, emb, doc, t). (key, \<bar>first_coord emb - first_coord q\<bar>))
             (filter (\<lambda>(key, emb, doc, t). t = tname) vs)))"

definition demo_collaborators :: collaborators where
  "demo_collaborators =
     \<lparr>sha256_hexdigest = demo_sha256, json_dumps = demo_json_dumps, embed = demo_embed,
      vs_search = demo_vs_search, clock = real, uuid4 = (\<lambda>n. ''uuid''),
      set_raises = (\<lambda>n. False), vdelete_raises = (\<lambda>n. False)\<rparr>"

definition demo_config :: CacheConfig where
  "demo_config =
     \<lparr>similarity_threshold = 1 / 2, reuse_threshold = 95 / 100, max_cache_size = 1,
      reuse_context_factor = 6 / 10, time_decay_lambda = 1 / 100, top_k = 5,
      eviction_policy = ''lfu''\<rparr>"

definition key_a :: string where
  "key_a = ''1d3c9c989c7f3c45''"

definition key_b :: string where
  "key_b = ''050cc0d6adfcc13c''"




text \<open>The cache after \<open>save("search", {"query": "b"}, "out")\<close> on the empty cache, the entry
  that call stored, and the same cache after one \<open>increment_reuse\<close> of that entry.\<close>

definition cache_b_saved :: ToolCache where
  "cache_b_saved =
     apply_op demo_collaborators demo_config (OpSave ''search'' [(''query'', ''b'')] ''out'' True)
       empty_cache"

definition entry_b_saved :: CacheEntry where
  "entry_b_saved = fresh_entry demo_collaborators ''search'' [(''query'', ''b'')] ''out'' True empty_cache"

definition cache_b_reused :: ToolCache where
  "cache_b_reused = apply_op demo_collaborators demo_config (OpIncrementReuse key_b) cache_b_saved"

section \<open>Properties of the scoring function\<close>

lemma ln_100_pos: "0 < ln (100::real)"
  by simp

lemma weighted_count_nonneg:
  fixes f :: real
  assumes "0 \<le> f" "f \<le> 1" "0 \<le> r" "0 \<le> p"
  shows "0 \<le> f * real_of_int r + (1 - f) * real_of_int p"
  using assms by simp

lemma compute_weighted_score_defined:
  assumes "0 \<le> f" "f \<le> 1" "0 \<le> r" "0 \<le> p"
  shows "\<exists>s. compute_weighted_score now sim r p la f lam = Some s"
proof -
  have "0 \<le> f * real_of_int r + (1 - f) * real_of_int p"
    using assms by (rule weighted_count_nonneg)
  then have "0 < f * real_of_int r + (1 - f) * real_of_int p + 1"
    by linarith
  then show ?thesis
    by (simp add: compute_weighted_score_def math_log_def Let_def)
qed

text \<open>
  Claim C9. For a fixed similarity, evaluation instant, last access time and context count,
  and a reuse/context factor \<open>f > 0\<close>, raising the reuse count never lowers the score: when
  the score is defined at the smaller count it is defined at the larger one and is at least
  as large. (By \<open>compute_weighted_score_defined\<close> the score is defined for every factor
  in \<open>[0, 1]\<close> and all non-negative counts.)
\<close>

theorem score_monotone_in_reuse_count:
  assumes f: "0 < f" and le: "r1 \<le> r2"
      and s1: "compute_weighted_score now sim r1 p la f lam = Some s1"
  shows "\<exists>s2. compute_weighted_score now sim r2 p la f lam = Some s2 \<and> s1 \<le> s2"
proof -
  let ?w1 = "f * real_of_int r1 + (1 - f) * real_of_int p"
  let ?w2 = "f * real_of_int r2 + (1 - f) * real_of_int p"
  let ?rec = "exp (- lam * ((now - la) / 3600))"
  have pos1: "0 < ?w1 + 1"
    using s1 by (simp add: compute_weighted_score_def math_log_def Let_def split: if_splits)
  have w: "?w1 \<le> ?w2"
    using f le by (simp add: mult_left_mono)
  then have pos2: "0 < ?w2 + 1"
    using pos1 by linarith
  have v1: "s1 = sim + min (ln (?w1 + 1) / ln 100) 1 * ?rec"
    using s1 pos1 by (simp add: compute_weighted_score_def math_log_def Let_def)
  have v2: "compute_weighted_score now sim r2 p la f lam
              = Some (sim + min (ln (?w2 + 1) / ln 100) 1 * ?rec)"
    using pos2 by (simp add: compute_weighted_score_def math_log_def Let_def)
  have "ln (?w1 + 1) \<le> ln (?w2 + 1)"
    using pos1 w by simp
  then have "ln (?w1 + 1) / ln 100 \<le> ln (?w2 + 1) / ln 100"
    using ln_100_pos by (simp add: divide_right_mono)
  then have "min (ln (?w1 + 1) / ln 100) 1 \<le> min (ln (?w2 + 1) / ln 100) 1"
    by (simp add: min_le_iff_disj)
  then have "min (ln (?w1 + 1) / ln 100) 1 * ?rec \<le> min (ln (?w2 + 1) / ln 100) 1 * ?rec"
    by (rule mult_right_mono) simp
  then show ?thesis
    using v1 v2 by simp
qed

theorem score_monotone_in_reuse_count_witness:
  "\<exists>s2. compute_weighted_score 0 (9/10) 5 2 0 (6/10) (1/100) = Some s2
        \<and> 9/10 + min (ln (21/5) / ln 100) 1 \<le> s2"
proof -
  have "compute_weighted_score 0 (9/10) 4 2 0 (6/10) (1/100) = Some (9/10 + min (ln (21/5) / ln 100) 1)"
    by (simp add: compute_weighted_score_def math_log_def Let_def)
  from score_monotone_in_reuse_count [OF _ _ this, of 5] show ?thesis by simp
qed

text \<open>
  On inputs whose last access is not after the evaluation instant the scoring function
  stays within the bound: with a non-negative decay rate, a factor in \<open>[0, 1]\<close> and
  non-negative counts, the recency factor is at most one, the score is defined and it is at
  most \<open>similarity + min 1 (ln (weighted_count + 1) / ln 100)\<close>.
\<close>

lemma score_bound_when_not_in_future:
  assumes lam: "0 \<le> lam" and la: "la \<le> now"
      and f: "0 \<le> f" "f \<le> 1" and r: "0 \<le> r" and p: "0 \<le> p"
  shows "compute_recency_factor now la lam \<le> 1 \<and>
         (\<exists>s. compute_weighted_score now sim r p la f lam = Some s \<and>
              s = sim + min (ln (f * real_of_int r + (1 - f) * real_of_int p + 1) / ln 100) 1
                        * compute_recency_factor now la lam \<and>
              s \<le> sim + min 1 (ln (f * real_of_int r + (1 - f) * real_of_int p + 1) / ln 100))"
proof -
  let ?w = "f * real_of_int r + (1 - f) * real_of_int p"
  have w: "0 \<le> ?w" using f r p by (rule weighted_count_nonneg)
  have "0 \<le> lam * ((now - la) / 3600)" using lam la by simp
  then have rec: "compute_recency_factor now la lam \<le> 1"
    by (simp add: compute_recency_factor_def)
  have n0: "0 \<le> min (ln (?w + 1) / ln 100) 1"
    using w by simp
  have v: "compute_weighted_score now sim r p la f lam
             = Some (sim + min (ln (?w + 1) / ln 100) 1 * compute_recency_factor now la lam)"
    using w by (simp add: compute_weighted_score_def compute_recency_factor_def math_log_def Let_def)
  have "min (ln (?w + 1) / ln 100) 1 * compute_recency_factor now la lam
          \<le> min (ln (?w + 1) / ln 100) 1 * 1"
    using rec n0 by (rule mult_left_mono)
  then have "sim + min (ln (?w + 1) / ln 100) 1 * compute_recency_factor now la lam
          \<le> sim + min 1 (ln (?w + 1) / ln 100)"
    by (simp add: min.commute)
  with rec v show ?thesis by simp
qed

text \<open>
  Claim C2 says the elapsed time is clamped at zero before the recency factor is computed,
  so that the recency factor is at most one and the score at most
  \<open>similarity + min 1 (ln (weighted_count + 1) / ln 100)\<close> also for a last access that lies
  after the evaluation instant. The source computes \<open>(now - last_accessed) / 3600\<close> and uses
  it as it is, although the documentation of \<open>compute_recency_factor\<close> gives the range of the
  recency factor as \<open>(0, 1]\<close>. With a last access one hour after the evaluation instant, a
  decay rate of one per hour, factor one, one reuse and similarity zero, the recency factor
  is \<open>exp 1 > 1\<close> and the score \<open>ln 2 / ln 100 * exp 1\<close> exceeds the bound
  \<open>min 1 (ln 2 / ln 100)\<close>.
\<close>

theorem score_exceeds_bound_for_future_access:
  "compute_recency_factor 0 3600 1 = exp 1 \<and> 1 < compute_recency_factor 0 3600 1 \<and>
   compute_weighted_score 0 0 1 0 3600 1 1 = Some (0 + min (ln 2 / ln 100) 1 * exp 1) \<and>
   0 + min 1 (ln (1 + 1) / ln 100) < 0 + min (ln 2 / ln 100) 1 * exp (1::real)"
proof -
  have a: "compute_recency_factor 0 3600 1 = exp 1"
    by (simp add: compute_recency_factor_def)
  have b: "compute_weighted_score 0 0 1 0 3600 1 1 = Some (0 + min (ln 2 / ln 100) 1 * exp 1)"
    by (simp add: compute_weighted_score_def math_log_def Let_def)
  have e: "(1::real) < exp 1" by simp
  have "0 < ln (2::real) / ln 100" by simp
  moreover have "ln (2::real) / ln 100 \<le> 1" by simp
  ultimately have m: "0 < min (ln (2::real) / ln 100) 1" by simp
  have "min (ln (2::real) / ln 100) 1 * 1 < min (ln 2 / ln 100) 1 * exp 1"
    using m e by (rule mult_strict_left_mono[rotated])
  then have c: "0 + min 1 (ln (1 + 1) / ln 100) < 0 + min (ln 2 / ln 100) 1 * exp (1::real)"
    by (simp add: min.commute)
  from a b c e show ?thesis by simp
qed

section \<open>Properties of the storage, the cache and the decision engine\<close>

subsection \<open>Association lists as dictionaries\<close>

lemma in_set_updateD: "p \<in> set (AList.update k v al) \<Longrightarrow> p = (k, v) \<or> p \<in> set al"
  by (induction al) (auto split: if_splits)

lemma in_set_deleteD: "p \<in> set (AList.delete k al) \<Longrightarrow> p \<in> set al"
  by (simp add: AList.delete_eq)

lemma map_of_keys: "map_of al k \<noteq> None \<longleftrightarrow> k \<in> set (map fst al)"
  by (simp add: map_of_eq_None_iff)

lemma update_keys_present: "k \<in> set (map fst al) \<Longrightarrow> map fst (AList.update k v al) = map fst al"
  by (simp add: update_keys)

lemma length_delete_present:
  "distinct (map fst al) \<Longrightarrow> k \<in> set (map fst al) \<Longrightarrow> Suc (length (AList.delete k al)) = length al"
  by (induction al) (auto simp: rev_image_eqI)

lemma map_of_distinct_mem: "distinct (map fst al) \<Longrightarrow> (k, v) \<in> set al \<Longrightarrow> map_of al k = Some v"
  by simp

subsection \<open>The storage operations keep the storage well-formed\<close>

lemma storage_okD:
  assumes "storage_ok s" "ms_get s k = Some e"
  shows "entry_id e = k" "0 \<le> reuse_count e" "0 \<le> provide_context_count e"
proof -
  have "(k, e) \<in> set (data s)"
    using assms(2) by (simp add: ms_get_def map_of_SomeD)
  moreover have "\<forall>p \<in> set (data s). entry_id (snd p) = fst p \<and> 0 \<le> reuse_count (snd p)
                    \<and> 0 \<le> provide_context_count (snd p)"
    using assms(1) by (simp add: storage_ok_def list_all_iff case_prod_beta)
  ultimately have "entry_id (snd (k, e)) = fst (k, e) \<and> 0 \<le> reuse_count (snd (k, e))
                    \<and> 0 \<le> provide_context_count (snd (k, e))"
    by blast
  then show "entry_id e = k" "0 \<le> reuse_count e" "0 \<le> provide_context_count e"
    by simp_all
qed

lemma storage_ok_modify:
  assumes ok: "storage_ok s" and k: "ms_get s k = Some e"
      and e': "entry_id e' = k" "0 \<le> reuse_count e'" "0 \<le> provide_context_count e'"
  shows "storage_ok (s\<lparr>data := AList.update k e' (data s)\<rparr>)"
proof -
  let ?P = "\<lambda>p. entry_id (snd p) = fst p \<and> 0 \<le> reuse_count (snd p)
                    \<and> 0 \<le> provide_context_count (snd p)"
  have kin: "k \<in> set (map fst (data s))"
    using k map_of_keys[of "data s" k] by (simp add: ms_get_def)
  have old: "\<forall>p \<in> set (data s). ?P p"
    using ok by (simp add: storage_ok_def list_all_iff case_prod_beta)
  have "?P p" if "p \<in> set (AList.update k e' (data s))" for p
    using in_set_updateD[OF that] old e' by auto
  then have "list_all (\<lambda>(key, e). entry_id e = key \<and> 0 \<le> reuse_count e \<and> 0 \<le> provide_context_count e)
          (AList.update k e' (data s))"
    by (simp add: list_all_iff case_prod_beta)
  then show ?thesis
    using ok kin by (simp add: storage_ok_def update_keys_present)
qed

lemma storage_ok_set:
  assumes ok: "storage_ok s"
      and e: "entry_id e = k" "0 \<le> reuse_count e" "0 \<le> provide_context_count e"
  shows "storage_ok (ms_set s k e sc)"
proof -
  let ?P = "\<lambda>p. entry_id (snd p) = fst p \<and> 0 \<le> reuse_count (snd p)
                    \<and> 0 \<le> provide_context_count (snd p)"
  have old: "\<forall>p \<in> set (data s). ?P p"
    using ok by (simp add: storage_ok_def list_all_iff case_prod_beta)
  have "?P p" if "p \<in> set (AList.update k e (data s))" for p
    using in_set_updateD[OF that] old e by auto
  then have "list_all (\<lambda>(key, e). entry_id e = key \<and> 0 \<le> reuse_count e \<and> 0 \<le> provide_context_count e)
          (AList.update k e (data s))"
    by (simp add: list_all_iff case_prod_beta)
  moreover have "map fst (AList.update k sc (scores s)) = map fst (AList.update k e (data s))"
    using ok by (simp add: storage_ok_def update_keys)
  moreover have "distinct (map fst (AList.update k e (data s)))"
    using ok by (simp add: storage_ok_def distinct_update)
  ultimately show ?thesis
    by (simp add: storage_ok_def ms_set_def)
qed

lemma storage_ok_delete:
  assumes ok: "storage_ok s"
  shows "storage_ok (snd (ms_delete s k))"
proof -
  let ?P = "\<lambda>p. entry_id (snd p) = fst p \<and> 0 \<le> reuse_count (snd p)
                    \<and> 0 \<le> provide_context_count (snd p)"
  have old: "\<forall>p \<in> set (data s). ?P p"
    using ok by (simp add: storage_ok_def list_all_iff case_prod_beta)
  have "?P p" if "p \<in> set (AList.delete k (data s))" for p
    using in_set_deleteD[OF that] old by blast
  then have "list_all (\<lambda>(key, e). entry_id e = key \<and> 0 \<le> reuse_count e \<and> 0 \<le> provide_context_count e)
          (AList.delete k (data s))"
    by (simp add: list_all_iff case_prod_beta)
  then show ?thesis
    using ok by (simp add: storage_ok_def ms_delete_def delete_keys distinct_removeAll)
qed

lemma storage_ok_update_score:
  assumes ok: "storage_ok s"
  shows "storage_ok (snd (ms_update_score s k sc))"
proof (cases "map_of (data s) k")
  case None
  then show ?thesis using ok by (simp add: ms_update_score_def)
next
  case (Some e)
  then have "k \<in> set (map fst (scores s))"
    using ok map_of_keys[of "data s" k] by (simp add: storage_ok_def)
  then have "map fst (AList.update k sc (scores s)) = map fst (scores s)"
    by (rule update_keys_present)
  then show ?thesis
    using ok Some by (simp add: ms_update_score_def storage_ok_def)
qed

lemma storage_ok_update_access_time:
  assumes ok: "storage_ok s"
  shows "storage_ok (snd (ms_update_access_time now s k))"
proof (cases "ms_get s k")
  case None
  then show ?thesis using ok by (simp add: ms_update_access_time_def ms_get_def)
next
  case (Some e)
  have "storage_ok (s\<lparr>data := AList.update k (e\<lparr>last_accessed_at := now\<rparr>) (data s)\<rparr>)"
    using storage_okD[OF ok Some] by (intro storage_ok_modify[OF ok Some]) simp_all
  then show ?thesis using Some by (simp add: ms_update_access_time_def ms_get_def)
qed

lemma storage_ok_increment_reuse:
  assumes ok: "storage_ok s"
  shows "storage_ok (snd (ms_increment_reuse now s k))"
proof (cases "ms_get s k")
  case None
  then show ?thesis using ok by (simp add: ms_increment_reuse_def ms_get_def)
next
  case (Some e)
  have "storage_ok (s\<lparr>data := AList.update k (e\<lparr>reuse_count := reuse_count e + 1, last_accessed_at := now\<rparr>) (data s)\<rparr>)"
    using storage_okD[OF ok Some] by (intro storage_ok_modify[OF ok Some]) simp_all
  then show ?thesis using Some by (simp add: ms_increment_reuse_def ms_get_def)
qed

lemma storage_ok_increment_context:
  assumes ok: "storage_ok s"
  shows "storage_ok (snd (ms_increment_context now s k))"
proof (cases "ms_get s k")
  case None
  then show ?thesis using ok by (simp add: ms_increment_context_def ms_get_def)
next
  case (Some e)
  have "storage_ok (s\<lparr>data := AList.update k (e\<lparr>provide_context_count := provide_context_count e + 1, last_accessed_at := now\<rparr>) (data s)\<rparr>)"
    using storage_okD[OF ok Some] by (intro storage_ok_modify[OF ok Some]) simp_all
  then show ?thesis using Some by (simp add: ms_increment_context_def ms_get_def)
qed

lemma storage_ok_decrement_reference:
  assumes ok: "storage_ok s"
  shows "storage_ok (snd (ms_decrement_reference s k))"
proof (cases "ms_get s k")
  case None
  then show ?thesis using ok by (simp add: ms_decrement_reference_def ms_get_def)
next
  case (Some e)
  note d = storage_okD[OF ok Some]
  have a: "storage_ok (s\<lparr>data := AList.update k (e\<lparr>reuse_count := reuse_count e - 1\<rparr>) (data s)\<rparr>)"
    if "0 < reuse_count e"
    using d that by (intro storage_ok_modify[OF ok Some]) simp_all
  have b: "storage_ok (s\<lparr>data := AList.update k
              (e\<lparr>provide_context_count := provide_context_count e - 1\<rparr>) (data s)\<rparr>)"
    if "0 < provide_context_count e"
    using d that by (intro storage_ok_modify[OF ok Some]) simp_all
  show ?thesis
    using Some a b \<open>storage_ok s\<close> by (simp add: ms_decrement_reference_def ms_get_def)
qed

lemma storage_ok_clear: "storage_ok (ms_clear s)"
  by (simp add: storage_ok_def ms_clear_def)


subsection \<open>What the storage operations do to the stored entries and the keys\<close>

lemma ms_get_eq: "ms_get s = map_of (data s)"
  by (rule ext) (simp add: ms_get_def)

lemma ms_get_set: "ms_get (ms_set s k e sc) = (ms_get s)(k \<mapsto> e)"
  by (simp add: ms_get_eq ms_set_def update_conv')

lemma ms_get_delete: "ms_get (snd (ms_delete s k)) = (ms_get s)(k := None)"
  by (simp add: ms_get_eq ms_delete_def delete_conv')

lemma ms_get_update_score: "ms_get (snd (ms_update_score s k sc)) = ms_get s"
  by (simp add: ms_get_eq ms_update_score_def)

lemma ms_get_update_access_time:
  "ms_get (snd (ms_update_access_time now s k)) =
     (case ms_get s k of None \<Rightarrow> ms_get s
      | Some e \<Rightarrow> (ms_get s)(k \<mapsto> e\<lparr>last_accessed_at := now\<rparr>))"
  by (simp add: ms_get_eq ms_update_access_time_def update_conv' split: option.split)

lemma ms_get_increment_reuse:
  "ms_get (snd (ms_increment_reuse now s k)) =
     (case ms_get s k of None \<Rightarrow> ms_get s
      | Some e \<Rightarrow> (ms_get s)(k \<mapsto> e\<lparr>reuse_count := reuse_count e + 1, last_accessed_at := now\<rparr>))"
  by (simp add: ms_get_eq ms_increment_reuse_def update_conv' split: option.split)

lemma ms_get_increment_context:
  "ms_get (snd (ms_increment_context now s k)) =
     (case ms_get s k of None \<Rightarrow> ms_get s
      | Some e \<Rightarrow> (ms_get s)(k \<mapsto> e\<lparr>provide_context_count := provide_context_count e + 1,
                                      last_accessed_at := now\<rparr>))"
  by (simp add: ms_get_eq ms_increment_context_def update_conv' split: option.split)

lemma ms_get_decrement_reference:
  "ms_get (snd (ms_decrement_reference s k)) =
     (case ms_get s k of None \<Rightarrow> ms_get s
      | Some e \<Rightarrow>
          if 0 < reuse_count e then (ms_get s)(k \<mapsto> e\<lparr>reuse_count := reuse_count e - 1\<rparr>)
          else if 0 < provide_context_count e
          then (ms_get s)(k \<mapsto> e\<lparr>provide_context_count := provide_context_count e - 1\<rparr>)
          else ms_get s)"
  by (simp add: ms_get_eq ms_decrement_reference_def update_conv' split: option.split)

lemma fst_ms_update_access_time: "fst (ms_update_access_time now s k) = (ms_get s k \<noteq> None)"
  by (simp add: ms_get_def ms_update_access_time_def split: option.split)

lemma fst_ms_increment_reuse: "fst (ms_increment_reuse now s k) = (ms_get s k \<noteq> None)"
  by (simp add: ms_get_def ms_increment_reuse_def split: option.split)

lemma fst_ms_increment_context: "fst (ms_increment_context now s k) = (ms_get s k \<noteq> None)"
  by (simp add: ms_get_def ms_increment_context_def split: option.split)

text \<open>The storage increments do to a stored entry what the methods of \<open>CacheEntry\<close> do.\<close>

lemma ms_increment_reuse_entry:
  "ms_get (snd (ms_increment_reuse now s k)) k = map_option (entry_increment_reuse now) (ms_get s k)"
  by (simp add: ms_get_increment_reuse entry_increment_reuse_def split: option.split)

lemma ms_increment_context_entry:
  "ms_get (snd (ms_increment_context now s k)) k = map_option (entry_increment_context now) (ms_get s k)"
  by (simp add: ms_get_increment_context entry_increment_context_def split: option.split)

lemma ms_exists_get: "ms_exists s k = (ms_get s k \<noteq> None)"
  by (simp add: ms_exists_def ms_get_def)

lemma ms_get_keys: "ms_get s k \<noteq> None \<longleftrightarrow> k \<in> set (ms_keys s)"
  unfolding ms_get_def ms_keys_def by (rule map_of_keys)

lemma ms_size_keys: "ms_size s = int (length (ms_keys s))"
  by (simp add: ms_size_def ms_keys_def)

lemma ms_keys_modify:
  "map_of (data s) k = Some e \<Longrightarrow> ms_keys (s\<lparr>data := AList.update k e' (data s)\<rparr>) = ms_keys s"
  using map_of_keys[of "data s" k] by (simp add: ms_keys_def update_keys_present)

lemma ms_keys_update_score: "ms_keys (snd (ms_update_score s k sc)) = ms_keys s"
  by (simp add: ms_keys_def ms_update_score_def)

lemma ms_keys_update_access_time: "ms_keys (snd (ms_update_access_time now s k)) = ms_keys s"
  by (simp add: ms_update_access_time_def ms_keys_modify split: option.split)

lemma ms_keys_increment_reuse: "ms_keys (snd (ms_increment_reuse now s k)) = ms_keys s"
  by (simp add: ms_increment_reuse_def ms_keys_modify split: option.split)

lemma ms_keys_increment_context: "ms_keys (snd (ms_increment_context now s k)) = ms_keys s"
  by (simp add: ms_increment_context_def ms_keys_modify split: option.split)

lemma ms_keys_decrement_reference: "ms_keys (snd (ms_decrement_reference s k)) = ms_keys s"
  by (simp add: ms_decrement_reference_def ms_keys_modify split: option.split)

lemma ms_keys_set:
  "ms_keys (ms_set s k e sc) = (if k \<in> set (ms_keys s) then ms_keys s else ms_keys s @ [k])"
  by (simp add: ms_keys_def ms_set_def update_keys)

lemma ms_keys_delete: "ms_keys (snd (ms_delete s k)) = removeAll k (ms_keys s)"
  by (simp add: ms_keys_def ms_delete_def delete_keys)

lemma storage_ok_distinct_keys: "storage_ok s \<Longrightarrow> distinct (ms_keys s)"
  by (simp add: storage_ok_def ms_keys_def)

lemma length_removeAll_distinct:
  "distinct xs \<Longrightarrow> x \<in> set xs \<Longrightarrow> Suc (length (removeAll x xs)) = length xs"
  by (induction xs) auto

subsection \<open>The counter increments and the touch of the cache\<close>

lemma increment_reuse_storage:
  "storage (snd (increment_reuse E cfg k c)) = snd (ms_increment_reuse (clock E (steps c)) (storage c) k) \<or>
   (\<exists>sc. storage (snd (increment_reuse E cfg k c))
           = snd (ms_update_score (snd (ms_increment_reuse (clock E (steps c)) (storage c) k)) k sc))"
proof -
  obtain ok s1 where eq: "ms_increment_reuse (clock E (steps c)) (storage c) k = (ok, s1)"
    by (cases "ms_increment_reuse (clock E (steps c)) (storage c) k")
  show ?thesis
  proof (cases ok)
    case False
    then have "ms_get (storage c) k = None"
      using eq fst_ms_increment_reuse[of "clock E (steps c)" "storage c" k] by simp
    then have "s1 = storage c"
      using eq by (simp add: ms_increment_reuse_def ms_get_def)
    then show ?thesis
      using eq False by (simp add: increment_reuse_def)
  next
    case True
    then show ?thesis
      using eq by (auto simp: increment_reuse_def Let_def split: option.split)
  qed
qed

lemma increment_reuse_ok:
  assumes "storage_ok (storage c)"
  shows "storage_ok (storage (snd (increment_reuse E cfg k c)))"
proof -
  have a: "storage_ok (snd (ms_increment_reuse (clock E (steps c)) (storage c) k))"
    using assms by (rule storage_ok_increment_reuse)
  have b: "storage_ok (snd (ms_update_score (snd (ms_increment_reuse (clock E (steps c)) (storage c) k)) k sc))" for sc
    using a by (rule storage_ok_update_score)
  from increment_reuse_storage[of E cfg k c] show ?thesis
  proof (elim disjE exE)
    assume "storage (snd (increment_reuse E cfg k c)) = snd (ms_increment_reuse (clock E (steps c)) (storage c) k)"
    then show ?thesis using a by simp
  next
    fix sc
    assume "storage (snd (increment_reuse E cfg k c))
              = snd (ms_update_score (snd (ms_increment_reuse (clock E (steps c)) (storage c) k)) k sc)"
    then show ?thesis using b[of sc] by simp
  qed
qed

lemma increment_reuse_keys: "ms_keys (storage (snd (increment_reuse E cfg k c))) = ms_keys (storage c)"
  using increment_reuse_storage[of E cfg k c]
  by (auto simp: ms_keys_update_score ms_keys_increment_reuse)

lemma increment_reuse_get:
  "ms_get (storage (snd (increment_reuse E cfg k c))) = ms_get (snd (ms_increment_reuse (clock E (steps c)) (storage c) k))"
  using increment_reuse_storage[of E cfg k c]
  by (auto simp: ms_get_update_score)

lemma increment_reuse_vector_store: "vector_store (snd (increment_reuse E cfg k c)) = vector_store c"
  by (simp add: increment_reuse_def Let_def split: prod.split option.split)

lemma increment_context_storage:
  "storage (snd (increment_context E cfg k c)) = snd (ms_increment_context (clock E (steps c)) (storage c) k) \<or>
   (\<exists>sc. storage (snd (increment_context E cfg k c))
           = snd (ms_update_score (snd (ms_increment_context (clock E (steps c)) (storage c) k)) k sc))"
proof -
  obtain ok s1 where eq: "ms_increment_context (clock E (steps c)) (storage c) k = (ok, s1)"
    by (cases "ms_increment_context (clock E (steps c)) (storage c) k")
  show ?thesis
  proof (cases ok)
    case False
    then have "ms_get (storage c) k = None"
      using eq fst_ms_increment_context[of "clock E (steps c)" "storage c" k] by simp
    then have "s1 = storage c"
      using eq by (simp add: ms_increment_context_def ms_get_def)
    then show ?thesis
      using eq False by (simp add: increment_context_def)
  next
    case True
    then show ?thesis
      using eq by (auto simp: increment_context_def Let_def split: option.split)
  qed
qed

lemma increment_context_ok:
  assumes "storage_ok (storage c)"
  shows "storage_ok (storage (snd (increment_context E cfg k c)))"
proof -
  have a: "storage_ok (snd (ms_increment_context (clock E (steps c)) (storage c) k))"
    using assms by (rule storage_ok_increment_context)
  have b: "storage_ok (snd (ms_update_score (snd (ms_increment_context (clock E (steps c)) (storage c) k)) k sc))" for sc
    using a by (rule storage_ok_update_score)
  from increment_context_storage[of E cfg k c] show ?thesis
  proof (elim disjE exE)
    assume "storage (snd (increment_context E cfg k c)) = snd (ms_increment_context (clock E (steps c)) (storage c) k)"
    then show ?thesis using a by simp
  next
    fix sc
    assume "storage (snd (increment_context E cfg k c))
              = snd (ms_update_score (snd (ms_increment_context (clock E (steps c)) (storage c) k)) k sc)"
    then show ?thesis using b[of sc] by simp
  qed
qed

lemma increment_context_keys: "ms_keys (storage (snd (increment_context E cfg k c))) = ms_keys (storage c)"
  using increment_context_storage[of E cfg k c]
  by (auto simp: ms_keys_update_score ms_keys_increment_context)

lemma increment_context_get:
  "ms_get (storage (snd (increment_context E cfg k c))) = ms_get (snd (ms_increment_context (clock E (steps c)) (storage c) k))"
  using increment_context_storage[of E cfg k c]
  by (auto simp: ms_get_update_score)

lemma increment_context_vector_store: "vector_store (snd (increment_context E cfg k c)) = vector_store c"
  by (simp add: increment_context_def Let_def split: prod.split option.split)

lemma touch_entry_storage:
  "storage (snd (touch_entry E cfg k c)) = snd (ms_update_access_time (clock E (steps c)) (storage c) k) \<or>
   (\<exists>sc. storage (snd (touch_entry E cfg k c))
           = snd (ms_update_score (snd (ms_update_access_time (clock E (steps c)) (storage c) k)) k sc))"
proof -
  obtain ok s1 where eq: "ms_update_access_time (clock E (steps c)) (storage c) k = (ok, s1)"
    by (cases "ms_update_access_time (clock E (steps c)) (storage c) k")
  show ?thesis
  proof (cases ok)
    case False
    then have "ms_get (storage c) k = None"
      using eq fst_ms_update_access_time[of "clock E (steps c)" "storage c" k] by simp
    then have "s1 = storage c"
      using eq by (simp add: ms_update_access_time_def ms_get_def)
    then show ?thesis
      using eq False by (simp add: touch_entry_def)
  next
    case True
    then show ?thesis
      using eq by (auto simp: touch_entry_def Let_def split: option.split)
  qed
qed

lemma touch_entry_ok:
  assumes "storage_ok (storage c)"
  shows "storage_ok (storage (snd (touch_entry E cfg k c)))"
proof -
  have a: "storage_ok (snd (ms_update_access_time (clock E (steps c)) (storage c) k))"
    using assms by (rule storage_ok_update_access_time)
  have b: "storage_ok (snd (ms_update_score (snd (ms_update_access_time (clock E (steps c)) (storage c) k)) k sc))" for sc
    using a by (rule storage_ok_update_score)
  from touch_entry_storage[of E cfg k c] show ?thesis
  proof (elim disjE exE)
    assume "storage (snd (touch_entry E cfg k c)) = snd (ms_update_access_time (clock E (steps c)) (storage c) k)"
    then show ?thesis using a by simp
  next
    fix sc
    assume "storage (snd (touch_entry E cfg k c))
              = snd (ms_update_score (snd (ms_update_access_time (clock E (steps c)) (storage c) k)) k sc)"
    then show ?thesis using b[of sc] by simp
  qed
qed

lemma touch_entry_keys: "ms_keys (storage (snd (touch_entry E cfg k c))) = ms_keys (storage c)"
  using touch_entry_storage[of E cfg k c]
  by (auto simp: ms_keys_update_score ms_keys_update_access_time)

lemma touch_entry_get:
  "ms_get (storage (snd (touch_entry E cfg k c))) = ms_get (snd (ms_update_access_time (clock E (steps c)) (storage c) k))"
  using touch_entry_storage[of E cfg k c]
  by (auto simp: ms_get_update_score)

lemma touch_entry_vector_store: "vector_store (snd (touch_entry E cfg k c)) = vector_store c"
  by (simp add: touch_entry_def Let_def split: prod.split option.split)

lemma increment_reuse_result:
  assumes ok: "storage_ok (storage c)" and f: "0 \<le> reuse_context_factor cfg" "reuse_context_factor cfg \<le> 1"
      and k: "ms_get (storage c) k = Some e"
  shows "fst (increment_reuse E cfg k c) = Inr True"
proof -
  let ?e = "e\<lparr>reuse_count := reuse_count e + 1, last_accessed_at := clock E (steps c)\<rparr>"
  have eq: "ms_increment_reuse (clock E (steps c)) (storage c) k
              = (True, (storage c)\<lparr>data := AList.update k ?e (data (storage c))\<rparr>)"
    using k by (simp add: ms_increment_reuse_def ms_get_def)
  have g: "ms_get ((storage c)\<lparr>data := AList.update k ?e (data (storage c))\<rparr>) k = Some ?e"
    by (simp add: ms_get_def update_conv')
  have "0 \<le> reuse_count ?e" "0 \<le> provide_context_count ?e"
    using storage_okD[OF ok k] by simp_all
  then obtain sc where "compute_entry_score cfg (clock E (Suc (steps c))) ?e 1 = Some sc"
    unfolding compute_entry_score_def using compute_weighted_score_defined[OF f] by blast
  then show ?thesis
    using eq g by (simp add: increment_reuse_def Let_def)
qed

lemma increment_context_result:
  assumes ok: "storage_ok (storage c)" and f: "0 \<le> reuse_context_factor cfg" "reuse_context_factor cfg \<le> 1"
      and k: "ms_get (storage c) k = Some e"
  shows "fst (increment_context E cfg k c) = Inr True"
proof -
  let ?e = "e\<lparr>provide_context_count := provide_context_count e + 1,
               last_accessed_at := clock E (steps c)\<rparr>"
  have eq: "ms_increment_context (clock E (steps c)) (storage c) k
              = (True, (storage c)\<lparr>data := AList.update k ?e (data (storage c))\<rparr>)"
    using k by (simp add: ms_increment_context_def ms_get_def)
  have g: "ms_get ((storage c)\<lparr>data := AList.update k ?e (data (storage c))\<rparr>) k = Some ?e"
    by (simp add: ms_get_def update_conv')
  have "0 \<le> reuse_count ?e" "0 \<le> provide_context_count ?e"
    using storage_okD[OF ok k] by simp_all
  then obtain sc where "compute_entry_score cfg (clock E (Suc (steps c))) ?e 1 = Some sc"
    unfolding compute_entry_score_def using compute_weighted_score_defined[OF f] by blast
  then show ?thesis
    using eq g by (simp add: increment_context_def Let_def)
qed

subsection \<open>Search reads the storage and never writes it\<close>

lemma search_loop_storage: "storage (snd (search_loop E cfg rs c)) = storage c"
proof (induction rs arbitrary: c)
  case Nil
  show ?case by simp
next
  case (Cons r rs)
  obtain key d where r: "r = (key, d)" by (cases r)
  show ?case
  proof (cases "ms_get (storage c) key")
    case None
    then show ?thesis
      using Cons.IH by (simp add: r)
  next
    case (Some e)
    show ?thesis
      using Some Cons.IH[of c] Cons.IH[of "c\<lparr>steps := Suc (steps c)\<rparr>"]
      by (auto simp: r Let_def split: option.split prod.split sum.split)
  qed
qed

lemma search_storage: "storage (snd (search E cfg tname iargs k c)) = storage c"
proof -
  have "storage (snd (case search_loop E cfg rs c of
                        (Inl err, c') \<Rightarrow> (Inl err, c')
                      | (Inr hits, c') \<Rightarrow> (Inr (sort_key (\<lambda>h. - weighted_score h) hits), c')))
          = storage c" for rs
    using search_loop_storage[of E cfg rs c]
    by (auto split: prod.split sum.split)
  then show ?thesis
    by (simp add: search_def Let_def)
qed

lemma search_loop_hits:
  assumes "storage_ok s" "storage c = s" "search_loop E cfg rs c = (Inr hits, c')"
  shows "(\<forall>h \<in> set hits. ms_get s (entry_id (entry h)) = Some (entry h)
             \<and> similarity_threshold cfg \<le> similarity h
             \<and> entry_id (entry h) \<in> fst ` set rs)
         \<and> (distinct (map fst rs) \<longrightarrow> distinct (map (\<lambda>h. entry_id (entry h)) hits))"
  using assms(2,3)
proof (induction rs arbitrary: c hits c')
  case Nil
  then show ?case by simp
next
  case (Cons r rs)
  obtain key d where r: "r = (key, d)" by (cases r)
  show ?case
  proof (cases "ms_get (storage c) key")
    case None
    let ?c1 = "if \<not> ms_exists (storage c) key
               then (if vdelete_raises E (steps c) then c\<lparr>steps := Suc (steps c)\<rparr>
                     else c\<lparr>vector_store := vs_delete key (vector_store c), steps := Suc (steps c)\<rparr>)
               else c"
    have "storage ?c1 = s" using Cons.prems(1) by simp
    moreover have "search_loop E cfg rs ?c1 = (Inr hits, c')"
      using Cons.prems(2) None by (simp add: r)
    ultimately show ?thesis
      using Cons.IH[of ?c1 hits c'] by (auto simp: r)
  next
    case (Some e)
    note id = storage_okD(1)[OF assms(1) Some[unfolded Cons.prems(1)]]
    show ?thesis
    proof (cases "1 - d < similarity_threshold cfg")
      case True
      then have "search_loop E cfg rs c = (Inr hits, c')"
        using Cons.prems(2) Some by (simp add: r)
      then show ?thesis
        using Cons.IH[of c hits c'] Cons.prems(1) by (auto simp: r)
    next
      case False
      let ?c1 = "c\<lparr>steps := Suc (steps c)\<rparr>"
      from Cons.prems(2) Some False obtain w hits0 where
        w: "compute_weighted_score (clock E (steps c)) (1 - d) (reuse_count e)
              (provide_context_count e) (last_accessed_at e)
              (reuse_context_factor cfg) (time_decay_lambda cfg) = Some w"
        and rest: "search_loop E cfg rs ?c1 = (Inr hits0, c')"
        and hits: "hits = \<lparr>entry = e, similarity = 1 - d, weighted_score = w\<rparr> # hits0"
        by (auto simp: r Let_def split: option.splits prod.splits sum.splits)
      have ih: "(\<forall>h \<in> set hits0. ms_get s (entry_id (entry h)) = Some (entry h)
                   \<and> similarity_threshold cfg \<le> similarity h
                   \<and> entry_id (entry h) \<in> fst ` set rs)
               \<and> (distinct (map fst rs) \<longrightarrow> distinct (map (\<lambda>h. entry_id (entry h)) hits0))"
        using Cons.IH[of ?c1 hits0 c'] Cons.prems(1) rest by simp
      have "key \<notin> (\<lambda>h. entry_id (entry h)) ` set hits0" if "key \<notin> fst ` set rs"
        using ih that by auto
      then show ?thesis
        using ih hits id Some Cons.prems(1) False by (auto simp: r)
    qed
  qed
qed

lemma search_loop_succeeds:
  assumes "storage_ok s" "0 \<le> reuse_context_factor cfg" "reuse_context_factor cfg \<le> 1"
      and "storage c = s"
  shows "\<exists>hits c'. search_loop E cfg rs c = (Inr hits, c')"
  using assms(4)
proof (induction rs arbitrary: c)
  case Nil
  show ?case by simp
next
  case (Cons r rs)
  obtain key d where r: "r = (key, d)" by (cases r)
  show ?case
  proof (cases "ms_get (storage c) key")
    case None
    let ?c1 = "if \<not> ms_exists (storage c) key
               then (if vdelete_raises E (steps c) then c\<lparr>steps := Suc (steps c)\<rparr>
                     else c\<lparr>vector_store := vs_delete key (vector_store c), steps := Suc (steps c)\<rparr>)
               else c"
    have "storage ?c1 = s" using Cons.prems by simp
    then obtain hits c' where "search_loop E cfg rs ?c1 = (Inr hits, c')"
      using Cons.IH[of ?c1] by blast
    then show ?thesis
      using None by (simp add: r)
  next
    case (Some e)
    have nn: "0 \<le> reuse_count e" "0 \<le> provide_context_count e"
      using storage_okD(2,3)[OF assms(1) Some[unfolded Cons.prems]] by simp_all
    obtain w where w: "compute_weighted_score (clock E (steps c)) (1 - d) (reuse_count e)
              (provide_context_count e) (last_accessed_at e)
              (reuse_context_factor cfg) (time_decay_lambda cfg) = Some w"
      using compute_weighted_score_defined[OF assms(2,3) nn] by blast
    obtain hits1 c1 where a: "search_loop E cfg rs c = (Inr hits1, c1)"
      using Cons.IH[of c] Cons.prems by blast
    obtain hits2 c2 where b: "search_loop E cfg rs (c\<lparr>steps := Suc (steps c)\<rparr>) = (Inr hits2, c2)"
      using Cons.IH[of "c\<lparr>steps := Suc (steps c)\<rparr>"] Cons.prems by auto
    show ?thesis
      using Some w a b by (simp add: r Let_def)
  qed
qed

lemma distinct_map_sort_key:
  "distinct (map f xs) \<Longrightarrow> distinct (map f (sort_key g xs))"
  by (simp add: distinct_map)

lemma search_hits:
  assumes ok: "storage_ok (storage c)"
      and r: "search E cfg tname iargs k c = (Inr hits, c')"
      and d: "distinct (map fst (vs_search E (vector_store c) (embed E (serialize_args E iargs))
                 (case k of None \<Rightarrow> top_k cfg | Some v \<Rightarrow> if v = 0 then top_k cfg else v) tname))"
  shows "(\<forall>h \<in> set hits. ms_get (storage c) (entry_id (entry h)) = Some (entry h)
             \<and> similarity_threshold cfg \<le> similarity h)
         \<and> distinct (map (\<lambda>h. entry_id (entry h)) hits)"
proof -
  let ?rs = "vs_search E (vector_store c) (embed E (serialize_args E iargs))
               (case k of None \<Rightarrow> top_k cfg | Some v \<Rightarrow> if v = 0 then top_k cfg else v) tname"
  show ?thesis
  proof (cases "?rs = []")
    case True
    then have "hits = []" using r by (simp add: search_def Let_def)
    then show ?thesis by simp
  next
    case False
    then obtain hits0 where l: "search_loop E cfg ?rs c = (Inr hits0, c')"
        and h: "hits = sort_key (\<lambda>h. - weighted_score h) hits0"
      using r by (auto simp: search_def Let_def split: prod.splits sum.splits)
    from search_loop_hits[OF ok refl l] d show ?thesis
      by (simp add: h distinct_map_sort_key)
  qed
qed

lemma search_succeeds:
  assumes "storage_ok (storage c)" "0 \<le> reuse_context_factor cfg" "reuse_context_factor cfg \<le> 1"
  shows "\<exists>hits c'. search E cfg tname iargs k c = (Inr hits, c')"
proof -
  have "\<exists>hits c'. (case search_loop E cfg rs c of
                        (Inl err, c') \<Rightarrow> (Inl err, c')
                      | (Inr hits, c') \<Rightarrow> (Inr (sort_key (\<lambda>h. - weighted_score h) hits), c'))
                   = (Inr hits, c')" for rs
    using search_loop_succeeds[OF assms refl, of E rs] by auto
  then show ?thesis
    by (simp add: search_def Let_def)
qed

subsection \<open>Eviction\<close>

lemma evict_entry_storage:
  "storage (snd (evict_entry E k c))
     = (if ms_exists (storage c) k then snd (ms_delete (storage c) k) else storage c)"
  by (simp add: evict_entry_def Let_def)

lemma evict_entry_ok:
  "storage_ok (storage c) \<Longrightarrow> storage_ok (storage (snd (evict_entry E k c)))"
  by (simp add: evict_entry_storage storage_ok_delete)

lemma evict_entry_keys:
  "ms_keys (storage (snd (evict_entry E k c))) = removeAll k (ms_keys (storage c))"
proof (cases "ms_exists (storage c) k")
  case True
  then show ?thesis by (simp add: evict_entry_storage ms_keys_delete)
next
  case False
  then have "k \<notin> set (ms_keys (storage c))"
    using ms_get_keys[of "storage c" k] by (simp add: ms_exists_get)
  then show ?thesis using False by (simp add: evict_entry_storage)
qed

lemma evict_entry_get:
  "ms_get (storage (snd (evict_entry E k c))) = (ms_get (storage c))(k := None)"
proof (cases "ms_exists (storage c) k")
  case True
  then show ?thesis by (simp add: evict_entry_storage ms_get_delete)
next
  case False
  then have "ms_get (storage c) k = None"
    by (simp add: ms_exists_get)
  then have "(ms_get (storage c))(k := None) = ms_get (storage c)"
    by (rule_tac ext) simp
  then show ?thesis using False by (simp add: evict_entry_storage)
qed

lemma evict_all_ok:
  "storage_ok (storage c) \<Longrightarrow> storage_ok (storage (snd (evict_all E ks c)))"
proof (induction ks arbitrary: c)
  case Nil
  then show ?case by simp
next
  case (Cons k ks)
  obtain r c1 where e: "evict_entry E k c = (r, c1)" by (cases "evict_entry E k c")
  have ok1: "storage_ok (storage c1)"
    using evict_entry_ok[OF Cons.prems, of E k] e by simp
  show ?case
  proof (cases r)
    case None
    then show ?thesis using e Cons.IH[OF ok1] by simp
  next
    case (Some err)
    then show ?thesis using e ok1 by simp
  qed
qed

lemma evict_all_survivors:
  "ms_get (storage (snd (evict_all E ks c))) k = Some e \<Longrightarrow> ms_get (storage c) k = Some e"
proof (induction ks arbitrary: c)
  case Nil
  then show ?case by simp
next
  case (Cons k' ks)
  obtain r c1 where e: "evict_entry E k' c = (r, c1)" by (cases "evict_entry E k' c")
  have g: "ms_get (storage c1) = (ms_get (storage c))(k' := None)"
    using evict_entry_get[of E k' c] e by simp
  have "ms_get (storage c1) k = Some e"
  proof (cases r)
    case None
    then show ?thesis using e Cons by simp
  next
    case (Some err)
    then show ?thesis using e Cons.prems by simp
  qed
  then show ?case
    using g by (simp split: if_splits)
qed

lemma evict_all_length:
  assumes "distinct (ms_keys (storage c))" "distinct ks" "set ks \<subseteq> set (ms_keys (storage c))"
      and "evict_all E ks c = (None, c')"
  shows "length (ms_keys (storage c')) + length ks = length (ms_keys (storage c))"
  using assms
proof (induction ks arbitrary: c)
  case Nil
  then show ?case by simp
next
  case (Cons k ks)
  obtain r c1 where e: "evict_entry E k c = (r, c1)" by (cases "evict_entry E k c")
  have r: "r = None" and rest: "evict_all E ks c1 = (None, c')"
    using Cons.prems(4) e by (auto split: option.splits)
  have keys1: "ms_keys (storage c1) = removeAll k (ms_keys (storage c))"
    using evict_entry_keys[of E k c] e by simp
  have d1: "distinct (ms_keys (storage c1))"
    using Cons.prems(1) by (simp add: keys1 distinct_removeAll)
  have sub: "set ks \<subseteq> set (ms_keys (storage c1))"
    using Cons.prems(2,3) by (auto simp: keys1)
  have "length (ms_keys (storage c')) + length ks = length (ms_keys (storage c1))"
    using Cons.IH[OF d1 _ sub rest] Cons.prems(2) by simp
  moreover have "Suc (length (ms_keys (storage c1))) = length (ms_keys (storage c))"
    using length_removeAll_distinct[of "ms_keys (storage c)" k] Cons.prems(1,3) by (simp add: keys1)
  ultimately show ?case by simp
qed

lemma eviction_candidates:
  assumes keys: "map fst xs = ks" and d: "distinct ks" and n: "0 \<le> n" "nat n \<le> length ks"
  shows "distinct (map fst (py_prefix n (sort_key snd xs)))
         \<and> set (map fst (py_prefix n (sort_key snd xs))) \<subseteq> set ks
         \<and> length (map fst (py_prefix n (sort_key snd xs))) = nat n"
proof -
  have p: "map fst (py_prefix n (sort_key snd xs)) = take (nat n) (map fst (sort_key snd xs))"
    using n(1) by (simp add: py_prefix_def take_map)
  have d': "distinct (map fst (sort_key snd xs))"
    using d keys by (simp add: distinct_map_sort_key)
  have s: "set (map fst (sort_key snd xs)) = set ks"
    using keys by (metis set_map set_sort)
  have l: "length (map fst (sort_key snd xs)) = length ks"
    using keys by (metis length_map length_sort)
  have "set (take (nat n) (map fst (sort_key snd xs))) \<subseteq> set ks"
    using s set_take_subset[of "nat n" "map fst (sort_key snd xs)"] by simp
  then show ?thesis
    using p d' l n(2) by (simp add: distinct_take)
qed

lemma evict_keys_props:
  assumes ok: "storage_ok s" and n: "0 \<le> n" "n \<le> ms_size s"
  shows "distinct (get_bottom_by_score s n) \<and> set (get_bottom_by_score s n) \<subseteq> set (ms_keys s)
           \<and> length (get_bottom_by_score s n) = nat n"
    and "distinct (get_oldest_by_access s n) \<and> set (get_oldest_by_access s n) \<subseteq> set (ms_keys s)
           \<and> length (get_oldest_by_access s n) = nat n"
    and "distinct (get_least_used s n) \<and> set (get_least_used s n) \<subseteq> set (ms_keys s)
           \<and> length (get_least_used s n) = nat n"
    and "distinct (get_oldest_by_creation s n) \<and> set (get_oldest_by_creation s n) \<subseteq> set (ms_keys s)
           \<and> length (get_oldest_by_creation s n) = nat n"
proof -
  have d: "distinct (ms_keys s)" using ok by (rule storage_ok_distinct_keys)
  have l: "nat n \<le> length (ms_keys s)" using n by (simp add: ms_size_keys)
  have k1: "map fst (scores s) = ms_keys s"
    using ok by (simp add: storage_ok_def ms_keys_def)
  have k2: "map fst (map (\<lambda>(key, e). (key, g e)) (data s)) = ms_keys s" for g :: "CacheEntry \<Rightarrow> 'b"
    by (simp add: ms_keys_def case_prod_beta comp_def)
  show "distinct (get_bottom_by_score s n) \<and> set (get_bottom_by_score s n) \<subseteq> set (ms_keys s)
           \<and> length (get_bottom_by_score s n) = nat n"
    unfolding get_bottom_by_score_def by (rule eviction_candidates[OF k1 d n(1) l])
  show "distinct (get_oldest_by_access s n) \<and> set (get_oldest_by_access s n) \<subseteq> set (ms_keys s)
           \<and> length (get_oldest_by_access s n) = nat n"
    unfolding get_oldest_by_access_def by (rule eviction_candidates[OF k2 d n(1) l])
  show "distinct (get_least_used s n) \<and> set (get_least_used s n) \<subseteq> set (ms_keys s)
           \<and> length (get_least_used s n) = nat n"
    unfolding get_least_used_def by (rule eviction_candidates[OF k2 d n(1) l])
  show "distinct (get_oldest_by_creation s n) \<and> set (get_oldest_by_creation s n) \<subseteq> set (ms_keys s)
           \<and> length (get_oldest_by_creation s n) = nat n"
    unfolding get_oldest_by_creation_def by (rule eviction_candidates[OF k2 d n(1) l])
qed

lemma maybe_evict_unfold:
  "maybe_evict E cfg c =
     (if ms_size (storage c) \<le> max_cache_size cfg then (None, c)
      else evict_all E (evict_keys_of cfg (storage c) (ms_size (storage c) - max_cache_size cfg)) c)"
  by (simp add: maybe_evict_def evict_keys_of_def Let_def)

lemma evict_keys_of_props:
  assumes ok: "storage_ok s" and n: "0 \<le> n" "n \<le> ms_size s"
  shows "distinct (evict_keys_of cfg s n)" "set (evict_keys_of cfg s n) \<subseteq> set (ms_keys s)"
        "length (evict_keys_of cfg s n) = nat n"
  using evict_keys_props[OF ok n] by (simp_all add: evict_keys_of_def)

lemma maybe_evict_ok:
  "storage_ok (storage c) \<Longrightarrow> storage_ok (storage (snd (maybe_evict E cfg c)))"
  by (simp add: maybe_evict_unfold evict_all_ok)

lemma maybe_evict_survivors:
  "ms_get (storage (snd (maybe_evict E cfg c))) k = Some e \<Longrightarrow> ms_get (storage c) k = Some e"
proof (cases "ms_size (storage c) \<le> max_cache_size cfg")
  case True
  then show "ms_get (storage (snd (maybe_evict E cfg c))) k = Some e \<Longrightarrow> ?thesis"
    by (simp add: maybe_evict_unfold)
next
  case False
  assume "ms_get (storage (snd (maybe_evict E cfg c))) k = Some e"
  then have "ms_get (storage (snd (evict_all E
               (evict_keys_of cfg (storage c) (ms_size (storage c) - max_cache_size cfg)) c))) k = Some e"
    using False by (simp add: maybe_evict_unfold)
  then show ?thesis by (rule evict_all_survivors)
qed

lemma maybe_evict_bound:
  assumes ok: "storage_ok (storage c)" and m: "0 \<le> max_cache_size cfg"
      and r: "maybe_evict E cfg c = (None, c')"
  shows "ms_size (storage c') \<le> max_cache_size cfg"
proof (cases "ms_size (storage c) \<le> max_cache_size cfg")
  case True
  then show ?thesis using r by (simp add: maybe_evict_unfold)
next
  case False
  let ?n = "ms_size (storage c) - max_cache_size cfg"
  let ?ks = "evict_keys_of cfg (storage c) ?n"
  have n: "0 \<le> ?n" "?n \<le> ms_size (storage c)" using False m by simp_all
  note p = evict_keys_of_props[OF ok n, of cfg]
  have e: "evict_all E ?ks c = (None, c')"
    using r False by (simp add: maybe_evict_unfold)
  have "length (ms_keys (storage c')) + length ?ks = length (ms_keys (storage c))"
    using evict_all_length[OF storage_ok_distinct_keys[OF ok] p(1) p(2) e] .
  then have "int (length (ms_keys (storage c'))) + ?n = int (length (ms_keys (storage c)))"
    using p(3) n(1) by linarith
  then show ?thesis
    by (simp add: ms_size_keys)
qed

subsection \<open>Save\<close>

lemma compute_entry_score_fresh:
  "reuse_count e = 0 \<Longrightarrow> provide_context_count e = 0 \<Longrightarrow> compute_entry_score cfg now e 1 = Some 1"
  by (simp add: compute_entry_score_def compute_weighted_score_def math_log_def)

lemma save_existing:
  assumes "ms_get (storage c) (generate_cache_id E tname (serialize_args E iargs)) = Some ex"
  shows "save E cfg tname iargs out succ c =
     (case compute_entry_score cfg (clock E (Suc (steps c)))
             (ex\<lparr>entry_output := out, success := succ, last_accessed_at := clock E (steps c)\<rparr>) 1 of
        None \<Rightarrow> (Inl ValueError, c\<lparr>steps := steps c + 2\<rparr>)
      | Some sc \<Rightarrow>
          if set_raises E (steps c + 2) then (Inl StorageError, c\<lparr>steps := steps c + 3\<rparr>)
          else (Inr (ex\<lparr>entry_output := out, success := succ, last_accessed_at := clock E (steps c)\<rparr>),
                c\<lparr>storage := ms_set (storage c) (generate_cache_id E tname (serialize_args E iargs))
                       (ex\<lparr>entry_output := out, success := succ,
                           last_accessed_at := clock E (steps c)\<rparr>) sc,
                  steps := steps c + 3\<rparr>))"
  using assms by (simp add: save_def Let_def split: option.split)

lemma save_new:
  assumes "ms_get (storage c) (generate_cache_id E tname (serialize_args E iargs)) = None"
  shows "save E cfg tname iargs out succ c =
     (if set_raises E (steps c + 4)
      then (Inl StorageError,
            if vdelete_raises E (steps c + 5)
            then c\<lparr>vector_store := vs_add (generate_cache_id E tname (serialize_args E iargs))
                      (embed E (serialize_args E iargs)) (serialize_args E iargs) tname (vector_store c),
                   steps := steps c + 6\<rparr>
            else c\<lparr>vector_store := vs_delete (generate_cache_id E tname (serialize_args E iargs))
                      (vs_add (generate_cache_id E tname (serialize_args E iargs))
                         (embed E (serialize_args E iargs)) (serialize_args E iargs) tname (vector_store c)),
                   steps := steps c + 6\<rparr>)
      else (case maybe_evict E cfg
                   (c\<lparr>vector_store := vs_add (generate_cache_id E tname (serialize_args E iargs))
                          (embed E (serialize_args E iargs)) (serialize_args E iargs) tname (vector_store c),
                      storage := ms_set (storage c) (generate_cache_id E tname (serialize_args E iargs))
                          (fresh_entry E tname iargs out succ c) 1,
                      steps := steps c + 5\<rparr>) of
              (Some err, c4) \<Rightarrow> (Inl err, c4)
            | (None, c4) \<Rightarrow> (Inr (fresh_entry E tname iargs out succ c), c4)))"
proof -
  have sc: "compute_entry_score cfg now (fresh_entry E tname iargs out succ c) 1 = Some 1" for now
    by (rule compute_entry_score_fresh) (simp_all add: fresh_entry_def)
  show ?thesis
    using assms sc by (simp add: save_def Let_def add.commute)
qed


lemma fresh_entry_fields:
  "entry_id (fresh_entry E tname iargs out succ c) = generate_cache_id E tname (serialize_args E iargs)"
  "reuse_count (fresh_entry E tname iargs out succ c) = 0"
  "provide_context_count (fresh_entry E tname iargs out succ c) = 0"
  "entry_output (fresh_entry E tname iargs out succ c) = out"
  "success (fresh_entry E tname iargs out succ c) = succ"
  by (simp_all add: fresh_entry_def)

lemma save_ok:
  assumes ok: "storage_ok (storage c)"
  shows "storage_ok (storage (snd (save E cfg tname iargs out succ c)))"
proof (cases "ms_get (storage c) (generate_cache_id E tname (serialize_args E iargs))")
  case None
  let ?key = "generate_cache_id E tname (serialize_args E iargs)"
  let ?c3 = "c\<lparr>vector_store := vs_add ?key (embed E (serialize_args E iargs))
                     (serialize_args E iargs) tname (vector_store c),
                storage := ms_set (storage c) ?key (fresh_entry E tname iargs out succ c) 1,
                steps := steps c + 5\<rparr>"
  have "storage_ok (ms_set (storage c) ?key (fresh_entry E tname iargs out succ c) 1)"
    using ok by (rule storage_ok_set) (simp_all add: fresh_entry_fields)
  then have "storage_ok (storage ?c3)" by simp
  then have "storage_ok (storage (snd (maybe_evict E cfg ?c3)))"
    by (rule maybe_evict_ok)
  then show ?thesis
    using ok by (auto simp: save_new[OF None] split: prod.split option.split)
next
  case (Some ex)
  let ?key = "generate_cache_id E tname (serialize_args E iargs)"
  let ?e = "ex\<lparr>entry_output := out, success := succ, last_accessed_at := clock E (steps c)\<rparr>"
  have "storage_ok (ms_set (storage c) ?key ?e sc)" for sc
    using ok storage_okD[OF ok Some] by (intro storage_ok_set) simp_all
  then show ?thesis
    using ok by (simp add: save_existing[OF Some] split: option.split)
qed

lemma maybe_evict_bound_any:
  assumes ok: "storage_ok (storage c)" and m: "0 \<le> max_cache_size cfg"
      and sz: "ms_size (storage c) \<le> max_cache_size cfg + 1"
  shows "ms_size (storage (snd (maybe_evict E cfg c))) \<le> max_cache_size cfg"
proof (cases "ms_size (storage c) \<le> max_cache_size cfg")
  case True
  then show ?thesis by (simp add: maybe_evict_unfold)
next
  case False
  then have n: "ms_size (storage c) - max_cache_size cfg = 1" using sz by simp
  let ?ks = "evict_keys_of cfg (storage c) 1"
  have one: "(0::int) \<le> 1" "1 \<le> ms_size (storage c)" using False m by simp_all
  note p = evict_keys_of_props[OF ok one, of cfg]
  from p(3) obtain k where ks: "?ks = [k]"
    by (cases ?ks) simp_all
  have kin: "k \<in> set (ms_keys (storage c))" using p(2) ks by simp
  have "storage (snd (maybe_evict E cfg c)) = storage (snd (evict_entry E k c))"
    using False n ks by (simp add: maybe_evict_unfold split: prod.split option.split)
  then have "ms_keys (storage (snd (maybe_evict E cfg c))) = removeAll k (ms_keys (storage c))"
    by (simp add: evict_entry_keys)
  then have "Suc (length (ms_keys (storage (snd (maybe_evict E cfg c))))) = length (ms_keys (storage c))"
    using length_removeAll_distinct[OF storage_ok_distinct_keys[OF ok] kin] by simp
  then show ?thesis
    using sz by (simp add: ms_size_keys)
qed

lemma save_size_any:
  assumes ok: "storage_ok (storage c)" and m: "0 \<le> max_cache_size cfg"
      and sz: "ms_size (storage c) \<le> max_cache_size cfg"
  shows "ms_size (storage (snd (save E cfg tname iargs out succ c))) \<le> max_cache_size cfg"
proof (cases "ms_get (storage c) (generate_cache_id E tname (serialize_args E iargs))")
  case None
  let ?key = "generate_cache_id E tname (serialize_args E iargs)"
  let ?c3 = "c\<lparr>vector_store := vs_add ?key (embed E (serialize_args E iargs))
                     (serialize_args E iargs) tname (vector_store c),
                storage := ms_set (storage c) ?key (fresh_entry E tname iargs out succ c) 1,
                steps := steps c + 5\<rparr>"
  have ok3: "storage_ok (storage ?c3)"
    using storage_ok_set[OF ok, of "fresh_entry E tname iargs out succ c" ?key 1]
    by (simp add: fresh_entry_fields)
  have "?key \<notin> set (ms_keys (storage c))"
    using None ms_get_keys[of "storage c" ?key] by simp
  then have "ms_size (storage ?c3) = ms_size (storage c) + 1"
    by (simp add: ms_size_keys ms_keys_set)
  then have "ms_size (storage (snd (maybe_evict E cfg ?c3))) \<le> max_cache_size cfg"
    using maybe_evict_bound_any[OF ok3 m] sz by simp
  then show ?thesis
    using sz by (auto simp: save_new[OF None] split: prod.split option.split)
next
  case (Some ex)
  let ?key = "generate_cache_id E tname (serialize_args E iargs)"
  have "?key \<in> set (ms_keys (storage c))"
    using Some ms_get_keys[of "storage c" ?key] by simp
  then have "ms_size (ms_set (storage c) ?key e sc) = ms_size (storage c)" for e sc
    by (simp add: ms_size_keys ms_keys_set)
  then show ?thesis
    using sz by (simp add: save_existing[OF Some] split: option.split)
qed

subsection \<open>The remaining operations keep the storage well-formed and its keys\<close>

lemma get_best_match_storage:
  "storage (snd (get_best_match E cfg tname iargs c)) = storage c \<or>
   (\<exists>k c1. storage c1 = storage c \<and>
       storage (snd (get_best_match E cfg tname iargs c)) = storage (snd (touch_entry E cfg k c1)))"
proof -
  obtain r c1 where s: "search E cfg tname iargs (Some 1) c = (r, c1)"
    by (cases "search E cfg tname iargs (Some 1) c")
  have c1: "storage c1 = storage c"
    using search_storage[of E cfg tname iargs "Some 1" c] s by simp
  show ?thesis
  proof (cases r)
    case (Inl err)
    then show ?thesis using s c1 by (simp add: get_best_match_def)
  next
    case (Inr hits)
    show ?thesis
    proof (cases hits)
      case Nil
      then show ?thesis using s c1 Inr by (simp add: get_best_match_def)
    next
      case (Cons h hs)
      show ?thesis
      proof (cases "similarity_threshold cfg \<le> similarity h")
        case False
        then show ?thesis using s c1 Inr Cons by (simp add: get_best_match_def)
      next
        case True
        have "storage (snd (get_best_match E cfg tname iargs c))
                = storage (snd (touch_entry E cfg (entry_id (entry h)) c1))"
          using s Inr Cons True by (simp add: get_best_match_def split: prod.split option.split)
        then show ?thesis using c1 by blast
      qed
    qed
  qed
qed

lemma get_best_match_ok:
  assumes "storage_ok (storage c)"
  shows "storage_ok (storage (snd (get_best_match E cfg tname iargs c)))"
  using get_best_match_storage[of E cfg tname iargs c] assms touch_entry_ok
  by (metis (no_types))

lemma get_best_match_keys:
  "ms_keys (storage (snd (get_best_match E cfg tname iargs c))) = ms_keys (storage c)"
  using get_best_match_storage[of E cfg tname iargs c] touch_entry_keys
  by (metis (no_types))

lemma increment_context_all_ok:
  "storage_ok (storage c) \<Longrightarrow> storage_ok (storage (snd (increment_context_all E cfg hs c)))"
proof (induction hs arbitrary: c)
  case Nil
  then show ?case by simp
next
  case (Cons h hs)
  obtain r c1 where e: "increment_context E cfg (entry_id (entry h)) c = (r, c1)"
    by (cases "increment_context E cfg (entry_id (entry h)) c")
  have ok1: "storage_ok (storage c1)"
    using increment_context_ok[OF Cons.prems, of E cfg "entry_id (entry h)"] e by simp
  show ?case
    using e ok1 Cons.IH[OF ok1] by (cases r) simp_all
qed

lemma increment_context_all_keys:
  "ms_keys (storage (snd (increment_context_all E cfg hs c))) = ms_keys (storage c)"
proof (induction hs arbitrary: c)
  case Nil
  then show ?case by simp
next
  case (Cons h hs)
  obtain r c1 where e: "increment_context E cfg (entry_id (entry h)) c = (r, c1)"
    by (cases "increment_context E cfg (entry_id (entry h)) c")
  have k1: "ms_keys (storage c1) = ms_keys (storage c)"
    using increment_context_keys[of E cfg "entry_id (entry h)" c] e by simp
  show ?case
    using e k1 Cons.IH[of c1] by (cases r) simp_all
qed

text \<open>The state \<open>decide\<close> ends in, by the branch taken.\<close>

lemma decide_state:
  "\<exists>c1. storage c1 = storage c \<and>
     (snd (decide E icfg cfg tname iargs c) = c1
      \<or> (\<exists>k. snd (decide E icfg cfg tname iargs c) = snd (increment_reuse E cfg k c1))
      \<or> (\<exists>hs. snd (decide E icfg cfg tname iargs c) = snd (increment_context_all E cfg hs c1)))"
proof -
  obtain r c1 where s: "search E cfg tname iargs None c = (r, c1)"
    by (cases "search E cfg tname iargs None c")
  have c1: "storage c1 = storage c"
    using search_storage[of E cfg tname iargs None c] s by simp
  have "snd (decide E icfg cfg tname iargs c) = c1
      \<or> (\<exists>k. snd (decide E icfg cfg tname iargs c) = snd (increment_reuse E cfg k c1))
      \<or> (\<exists>hs. snd (decide E icfg cfg tname iargs c) = snd (increment_context_all E cfg hs c1))"
  proof (cases r)
    case (Inl err)
    then show ?thesis using s by (simp add: decide_def)
  next
    case (Inr hits)
    show ?thesis
    proof (cases hits)
      case Nil
      then show ?thesis using s Inr by (simp add: decide_def)
    next
      case (Cons b bs)
      show ?thesis
      proof (cases "reuse_threshold icfg \<le> similarity b")
        case True
        then have "snd (decide E icfg cfg tname iargs c)
                     = snd (increment_reuse E cfg (entry_id (entry b)) c1)"
          using s Inr Cons by (simp add: decide_def split: prod.split sum.split)
        then show ?thesis by blast
      next
        case False
        show ?thesis
        proof (cases "similarity_threshold icfg \<le> similarity b
                        \<and> filter (\<lambda>h. success (entry h)) hits \<noteq> []")
          case True
          then have "snd (decide E icfg cfg tname iargs c)
                       = snd (increment_context_all E cfg
                                (take 3 (filter (\<lambda>h. success (entry h)) hits)) c1)"
            using s Inr Cons False by (simp add: decide_def Let_def split: prod.split option.split)
          then show ?thesis by blast
        next
          case F2: False
          then show ?thesis
            using s Inr Cons False by (auto simp: decide_def)
        qed
      qed
    qed
  qed
  then show ?thesis using c1 by blast
qed

lemma decide_ok:
  assumes "storage_ok (storage c)"
  shows "storage_ok (storage (snd (decide E icfg cfg tname iargs c)))"
  using decide_state[of c E icfg cfg tname iargs] assms increment_reuse_ok increment_context_all_ok
  by (metis (no_types))

lemma decide_keys:
  "ms_keys (storage (snd (decide E icfg cfg tname iargs c))) = ms_keys (storage c)"
  using decide_state[of c E icfg cfg tname iargs] increment_reuse_keys increment_context_all_keys
  by (metis (no_types))

subsection \<open>Invariants of the reachable states\<close>

lemma apply_op_ok:
  assumes "storage_ok (storage c)"
  shows "storage_ok (storage (apply_op E cfg op c))"
proof (cases op)
  case (OpSave tname iargs out succ)
  then show ?thesis using assms by (simp add: save_ok)
next
  case (OpSearch tname iargs k)
  then show ?thesis using assms by (simp add: search_storage)
next
  case (OpGetBestMatch tname iargs)
  then show ?thesis using assms by (simp add: get_best_match_ok)
next
  case (OpIncrementReuse key)
  then show ?thesis using assms by (simp add: increment_reuse_ok)
next
  case (OpIncrementContext key)
  then show ?thesis using assms by (simp add: increment_context_ok)
next
  case (OpDecrementReference key)
  then show ?thesis using assms by (simp add: storage_ok_decrement_reference)
next
  case (OpDecide icfg tname iargs)
  then show ?thesis using assms by (simp add: decide_ok)
next
  case OpClear
  then show ?thesis by (simp add: clear_def storage_ok_clear)
qed

lemma apply_op_size:
  assumes "storage_ok (storage c)" "0 \<le> max_cache_size cfg"
      and "ms_size (storage c) \<le> max_cache_size cfg"
  shows "ms_size (storage (apply_op E cfg op c)) \<le> max_cache_size cfg"
proof (cases op)
  case (OpSave tname iargs out succ)
  then show ?thesis using assms by (simp add: save_size_any)
next
  case (OpSearch tname iargs k)
  then show ?thesis using assms by (simp add: search_storage)
next
  case (OpGetBestMatch tname iargs)
  then show ?thesis using assms by (simp add: ms_size_keys get_best_match_keys)
next
  case (OpIncrementReuse key)
  then show ?thesis using assms by (simp add: ms_size_keys increment_reuse_keys)
next
  case (OpIncrementContext key)
  then show ?thesis using assms by (simp add: ms_size_keys increment_context_keys)
next
  case (OpDecrementReference key)
  then show ?thesis using assms by (simp add: ms_size_keys ms_keys_decrement_reference)
next
  case (OpDecide icfg tname iargs)
  then show ?thesis using assms by (simp add: ms_size_keys decide_keys)
next
  case OpClear
  then show ?thesis using assms by (simp add: clear_def ms_clear_def ms_size_def)
qed

lemma reachable_storage_ok: "reachable E cfg c \<Longrightarrow> storage_ok (storage c)"
proof (induction rule: reachable.induct)
  case reachable_empty
  show ?case by (simp add: empty_cache_def storage_ok_def)
next
  case (reachable_step c op)
  then show ?case by (simp add: apply_op_ok)
qed

lemma reachable_size:
  "reachable E cfg c \<Longrightarrow> 0 \<le> max_cache_size cfg \<Longrightarrow> ms_size (storage c) \<le> max_cache_size cfg"
proof (induction rule: reachable.induct)
  case reachable_empty
  then show ?case by (simp add: empty_cache_def ms_size_def)
next
  case (reachable_step c op)
  then show ?case
    using apply_op_size[OF reachable_storage_ok[OF reachable_step.hyps]] by simp
qed

text \<open>
  Claim C5. In every state reachable from the empty cache under a configuration with
  \<open>max_cache_size > 0\<close>, whatever the eviction policy, a \<open>save\<close> that returns leaves at most
  \<open>max_cache_size\<close> entries in the storage. When the save stores a new entry, the state it
  returns is the one \<open>_maybe_evict\<close> produced from the state holding the new entry, so the
  eviction has run before \<open>save\<close> returns. (An update of a stored entry returns without
  evicting and leaves the number of entries as it was.)
\<close>

theorem save_keeps_size_bound:
  assumes "reachable E cfg c" and "0 < max_cache_size cfg"
      and "fst (save E cfg tname iargs out succ c) = Inr e"
  shows "ms_size (storage (snd (save E cfg tname iargs out succ c))) \<le> max_cache_size cfg \<and>
         (ms_get (storage c) (generate_cache_id E tname (serialize_args E iargs)) = None \<longrightarrow>
            (\<exists>c3. ms_get (storage c3) (generate_cache_id E tname (serialize_args E iargs)) = Some e
                 \<and> ms_size (storage c3) = ms_size (storage c) + 1
                 \<and> maybe_evict E cfg c3 = (None, snd (save E cfg tname iargs out succ c))))"
proof -
  let ?key = "generate_cache_id E tname (serialize_args E iargs)"
  have ok: "storage_ok (storage c)" using assms(1) by (rule reachable_storage_ok)
  have sz: "ms_size (storage c) \<le> max_cache_size cfg"
    using assms(1,2) by (simp add: reachable_size)
  have bound: "ms_size (storage (snd (save E cfg tname iargs out succ c))) \<le> max_cache_size cfg"
    using save_size_any[OF ok _ sz] assms(2) by simp
  have "\<exists>c3. ms_get (storage c3) ?key = Some e \<and> ms_size (storage c3) = ms_size (storage c) + 1
              \<and> maybe_evict E cfg c3 = (None, snd (save E cfg tname iargs out succ c))"
    if None: "ms_get (storage c) ?key = None"
  proof -
    let ?c3 = "c\<lparr>vector_store := vs_add ?key (embed E (serialize_args E iargs))
                     (serialize_args E iargs) tname (vector_store c),
                  storage := ms_set (storage c) ?key (fresh_entry E tname iargs out succ c) 1,
                  steps := steps c + 5\<rparr>"
    obtain r c4 where me: "maybe_evict E cfg ?c3 = (r, c4)" by (cases "maybe_evict E cfg ?c3")
    have nr: "\<not> set_raises E (steps c + 4)"
      using assms(3) by (auto simp: save_new[OF None])
    have r: "r = None" and e: "e = fresh_entry E tname iargs out succ c"
      using assms(3) nr me by (auto simp: save_new[OF None] split: option.splits)
    have c4: "snd (save E cfg tname iargs out succ c) = c4"
      using nr me r by (simp add: save_new[OF None])
    have "?key \<notin> set (ms_keys (storage c))"
      using None ms_get_keys[of "storage c" ?key] by simp
    then have "ms_size (storage ?c3) = ms_size (storage c) + 1"
      by (simp add: ms_size_keys ms_keys_set)
    moreover have "ms_get (storage ?c3) ?key = Some e"
      by (simp add: ms_get_set e)
    ultimately show ?thesis
      using me r c4 by blast
  qed
  with bound show ?thesis by blast
qed

lemmas demo_defs = demo_collaborators_def demo_config_def demo_sha256_def demo_json_dumps_def
  demo_embed_def demo_vs_search_def first_coord_def dq_def key_a_def key_b_def
  generate_cache_id_def serialize_args_def

lemmas cache_defs = save_def fresh_entry_def maybe_evict_def evict_entry_def
  compute_entry_score_def compute_weighted_score_def math_log_def
  ms_get_def ms_set_def ms_delete_def ms_exists_def ms_size_def
  get_bottom_by_score_def get_oldest_by_access_def get_least_used_def get_oldest_by_creation_def
  py_prefix_def vs_add_def vs_delete_def empty_cache_def Let_def

theorem save_keeps_size_bound_witness:
  "ms_size (storage (snd (save demo_collaborators demo_config ''search'' [(''query'', ''a'')] ''out'' True
       (apply_op demo_collaborators demo_config (OpSave ''search'' [(''query'', ''b'')] ''out'' True)
          empty_cache)))) \<le> max_cache_size demo_config"
proof -
  let ?c0 = "apply_op demo_collaborators demo_config (OpSave ''search'' [(''query'', ''b'')] ''out'' True)
          empty_cache"
  have r: "reachable demo_collaborators demo_config ?c0"
    by (rule reachable_step[OF reachable_empty])
  have m: "0 < max_cache_size demo_config" by (simp add: demo_config_def)
  have "\<exists>e. fst (save demo_collaborators demo_config ''search'' [(''query'', ''a'')] ''out'' True ?c0)
              = Inr e"
    by (simp add: demo_defs cache_defs)
  then obtain e where
    "fst (save demo_collaborators demo_config ''search'' [(''query'', ''a'')] ''out'' True ?c0) = Inr e" ..
  from save_keeps_size_bound[OF r m this] show ?thesis by blast
qed

subsection \<open>Statistics\<close>

text \<open>
  Claim C7 asks for six fields, all zero, on an empty cache. The branch of \<open>stats\<close> for an
  empty cache returns five items: \<open>max_reference_count\<close>, which the branch for a non-empty
  cache returns, is missing.
\<close>

theorem stats_empty_cache:
  "stats empty_cache =
     [(''total_entries'', IntVal 0), (''total_reuse_count'', IntVal 0),
      (''total_context_count'', IntVal 0), (''total_references'', IntVal 0),
      (''avg_reference_count'', FloatVal 0)]
   \<and> map_of (stats empty_cache) ''max_reference_count'' = None"
  by (simp add: stats_def empty_cache_def ms_keys_def)

lemma stats_nonempty_keys:
  assumes "ms_keys (storage c) \<noteq> []"
  shows "map fst (stats c) =
           [''total_entries'', ''total_reuse_count'', ''total_context_count'', ''total_references'',
            ''avg_reference_count'', ''max_reference_count'']"
  using assms by (simp add: stats_def Let_def split: prod.split)

subsection \<open>The reuse flag of a hit\<close>

lemmas decide_defs = decide_def search_def increment_reuse_def increment_context_def
  ms_increment_reuse_def ms_increment_context_def ms_update_score_def ms_update_access_time_def
  touch_entry_def get_best_match_def should_reuse_def config_valid_def

text \<open>
  Claim C10. \<open>should_reuse\<close> compares the similarity with the constant 0.95 and reads no
  configuration. With \<open>reuse_threshold = 0.8\<close>, after \<open>{"query": "b"}\<close> was saved, the call
  \<open>decide\<close> for \<open>{"query": "a"}\<close> finds that entry at similarity 0.9 and answers \<open>REUSE\<close>,
  while \<open>should_reuse\<close> of the returned hit is false.
\<close>

theorem should_reuse_ignores_reuse_threshold:
  "(\<forall>h. should_reuse h = (95 / 100 \<le> similarity h)) \<and>
   (\<exists>cfg r c'. config_valid cfg \<and> reuse_threshold cfg = 8 / 10 \<and>
      decide demo_collaborators cfg cfg ''search'' [(''query'', ''a'')]
        (apply_op demo_collaborators cfg (OpSave ''search'' [(''query'', ''b'')] ''out'' True) empty_cache)
        = (Inr r, c') \<and>
      decision r = REUSE \<and>
      (\<exists>h. cache_hit r = Some h \<and> similarity h = 9 / 10 \<and> \<not> should_reuse h))"
proof -
  let ?cfg = "demo_config\<lparr>reuse_threshold := 8 / 10\<rparr>"
  have a: "\<forall>h. should_reuse h = (95 / 100 \<le> similarity h)"
    by (simp add: should_reuse_def)
  have v: "config_valid ?cfg \<and> reuse_threshold ?cfg = 8 / 10"
    by (simp add: config_valid_def demo_config_def)
  have d: "\<exists>r c'. decide demo_collaborators ?cfg ?cfg ''search'' [(''query'', ''a'')]
        (apply_op demo_collaborators ?cfg (OpSave ''search'' [(''query'', ''b'')] ''out'' True) empty_cache)
        = (Inr r, c') \<and>
      decision r = REUSE \<and>
      (\<exists>h. cache_hit r = Some h \<and> similarity h = 9 / 10 \<and> \<not> should_reuse h)"
    by (simp add: demo_defs cache_defs decide_defs)
  from a v d show ?thesis by blast
qed

subsection \<open>Rollback of the vector index when the storage write fails\<close>


lemma vs_contains_add: "vs_contains (vs_add key emb doc tname vs) key"
  by (simp add: vs_contains_def vs_add_def update_conv')




subsection \<open>When the last access time changes\<close>

lemma search_loop_steps: "steps c \<le> steps (snd (search_loop E cfg rs c))"
proof (induction rs arbitrary: c)
  case Nil
  show ?case by simp
next
  case (Cons r rs)
  obtain key d where r: "r = (key, d)" by (cases r)
  let ?c1 = "if \<not> ms_exists (storage c) key
             then (if vdelete_raises E (steps c) then c\<lparr>steps := Suc (steps c)\<rparr>
                   else c\<lparr>vector_store := vs_delete key (vector_store c), steps := Suc (steps c)\<rparr>)
             else c"
  have a: "steps c \<le> steps (snd (search_loop E cfg rs ?c1))"
    using Cons.IH[of ?c1] by (auto split: if_splits)
  have b: "steps c \<le> steps (snd (search_loop E cfg rs c))"
    using Cons.IH[of c] .
  have c: "steps c \<le> steps (snd (search_loop E cfg rs (c\<lparr>steps := Suc (steps c)\<rparr>)))"
    using Cons.IH[of "c\<lparr>steps := Suc (steps c)\<rparr>"] by simp
  show ?case
  proof (cases "ms_get (storage c) key")
    case None
    then show ?thesis using a by (simp add: r)
  next
    case (Some e)
    then show ?thesis
      using b c by (auto simp: r Let_def split: option.split prod.split sum.split)
  qed
qed

lemma search_steps: "steps c \<le> steps (snd (search E cfg tname iargs k c))"
proof -
  have "steps c \<le> steps (snd (case search_loop E cfg rs c of
                        (Inl err, c') \<Rightarrow> (Inl err, c')
                      | (Inr hits, c') \<Rightarrow> (Inr (sort_key (\<lambda>h. - weighted_score h) hits), c')))" for rs
    using search_loop_steps[of c E cfg rs]
    by (auto split: prod.split sum.split)
  then show ?thesis
    by (simp add: search_def Let_def)
qed

lemma search_hits_stored:
  assumes ok: "storage_ok (storage c)"
      and r: "search E cfg tname iargs k c = (Inr hits, c')"
      and h: "h \<in> set hits"
  shows "ms_get (storage c) (entry_id (entry h)) = Some (entry h)"
proof -
  let ?rs = "vs_search E (vector_store c) (embed E (serialize_args E iargs))
               (case k of None \<Rightarrow> top_k cfg | Some v \<Rightarrow> if v = 0 then top_k cfg else v) tname"
  have ne: "?rs \<noteq> []"
    using r h by (auto simp: search_def Let_def)
  then obtain hits0 where l: "search_loop E cfg ?rs c = (Inr hits0, c')"
      and s: "hits = sort_key (\<lambda>h. - weighted_score h) hits0"
    using r by (auto simp: search_def Let_def split: prod.splits sum.splits)
  have "h \<in> set hits0" using h s by simp
  then show ?thesis
    using search_loop_hits[OF ok refl l] by blast
qed

lemma increment_reuse_entry:
  assumes "ms_get (storage c) key = Some e"
  shows "ms_get (storage (snd (increment_reuse E cfg key c))) key
           = Some (e\<lparr>reuse_count := reuse_count e + 1, last_accessed_at := clock E (steps c)\<rparr>)"
  using assms by (simp add: increment_reuse_get ms_get_increment_reuse)

lemma increment_context_entry:
  assumes "ms_get (storage c) key = Some e"
  shows "ms_get (storage (snd (increment_context E cfg key c))) key
           = Some (e\<lparr>provide_context_count := provide_context_count e + 1,
                     last_accessed_at := clock E (steps c)\<rparr>)"
  using assms by (simp add: increment_context_get ms_get_increment_context)

lemma touch_entry_entry:
  assumes "ms_get (storage c) key = Some e"
  shows "ms_get (storage (snd (touch_entry E cfg key c))) key
           = Some (e\<lparr>last_accessed_at := clock E (steps c)\<rparr>)"
  using assms by (simp add: touch_entry_get ms_get_update_access_time)

lemma get_best_match_touches:
  assumes ok: "storage_ok (storage c)"
      and r: "fst (get_best_match E cfg tname iargs c) = Inr (Some h)"
  shows "\<exists>n\<ge>steps c. ms_get (storage (snd (get_best_match E cfg tname iargs c))) (entry_id (entry h))
                        = Some ((entry h)\<lparr>last_accessed_at := clock E n\<rparr>)"
proof -
  obtain res c1 where s: "search E cfg tname iargs (Some 1) c = (res, c1)"
    by (cases "search E cfg tname iargs (Some 1) c")
  have c1: "storage c1 = storage c"
    using search_storage[of E cfg tname iargs "Some 1" c] s by simp
  have st: "steps c \<le> steps c1"
    using search_steps[of c E cfg tname iargs "Some 1"] s by simp
  from r s obtain hits where res: "res = Inr hits"
    by (cases res) (auto simp: get_best_match_def)
  from r s res obtain hs where hits: "hits = h # hs" and th: "similarity_threshold cfg \<le> similarity h"
    by (cases hits) (auto simp: get_best_match_def split: if_splits prod.splits option.splits)
  have g: "snd (get_best_match E cfg tname iargs c) = snd (touch_entry E cfg (entry_id (entry h)) c1)"
    using s res hits th by (simp add: get_best_match_def split: prod.split option.split)
  have "ms_get (storage c) (entry_id (entry h)) = Some (entry h)"
    using search_hits_stored[OF ok s[unfolded res]] hits by simp
  then have "ms_get (storage c1) (entry_id (entry h)) = Some (entry h)"
    using c1 by simp
  then have "ms_get (storage (snd (get_best_match E cfg tname iargs c))) (entry_id (entry h))
               = Some ((entry h)\<lparr>last_accessed_at := clock E (steps c1)\<rparr>)"
    unfolding g by (rule touch_entry_entry)
  then show ?thesis using st by blast
qed

text \<open>
  Claim C6 says the last access time is updated whenever an entry is returned as a search
  hit. \<open>search\<close> does not write the storage: after \<open>{"query": "b"}\<close> was saved (last access
  at clock reading 2), a search for \<open>{"query": "a"}\<close> at clock reading 5 returns that entry as
  a hit and leaves its stored last access time at reading 2.
\<close>

theorem search_hit_keeps_last_accessed_counterexample:
  "fst (search demo_collaborators demo_config ''search'' [(''query'', ''a'')] None cache_b_saved)
     = Inr [\<lparr>entry = entry_b_saved, similarity = 9 / 10, weighted_score = 9 / 10\<rparr>]
   \<and> ms_get (storage (snd (search demo_collaborators demo_config ''search'' [(''query'', ''a'')] None
                             cache_b_saved))) key_b = Some entry_b_saved
   \<and> last_accessed_at entry_b_saved = clock demo_collaborators 2
   \<and> steps cache_b_saved = 5
   \<and> steps (snd (search demo_collaborators demo_config ''search'' [(''query'', ''a'')] None
                    cache_b_saved)) = 6"
  by (simp add: cache_b_saved_def entry_b_saved_def demo_defs cache_defs decide_defs)

text \<open>
  Claim C6, amended. The last access time of an entry is set to the clock reading of the call
  whenever its reuse counter is incremented, whenever its context counter is incremented,
  and when \<open>get_best_match\<close> returns it (the touch). \<open>search\<close> alone returns its hits without
  writing the storage, so a search hit keeps its last access time; that covers the
  existence check \<open>search\<close> makes for a candidate missing from storage, which only reads
  (\<open>ms_exists\<close> yields a truth value and no store).
\<close>

theorem last_accessed_at_updates:
  "storage (snd (search E cfg tname iargs k c)) = storage c
   \<and> (ms_get (storage c) key = Some e \<longrightarrow>
        ms_get (storage (snd (increment_reuse E cfg key c))) key
          = Some (e\<lparr>reuse_count := reuse_count e + 1, last_accessed_at := clock E (steps c)\<rparr>))
   \<and> (ms_get (storage c) key = Some e \<longrightarrow>
        ms_get (storage (snd (increment_context E cfg key c))) key
          = Some (e\<lparr>provide_context_count := provide_context_count e + 1,
                    last_accessed_at := clock E (steps c)\<rparr>))
   \<and> (storage_ok (storage c) \<and> fst (get_best_match E cfg tname iargs c) = Inr (Some h) \<longrightarrow>
        (\<exists>n\<ge>steps c. ms_get (storage (snd (get_best_match E cfg tname iargs c))) (entry_id (entry h))
                        = Some ((entry h)\<lparr>last_accessed_at := clock E n\<rparr>)))"
  using search_storage[of E cfg tname iargs k c] increment_reuse_entry[of c key e E cfg]
    increment_context_entry[of c key e E cfg] get_best_match_touches[of c E cfg tname iargs h]
  by blast

theorem last_accessed_at_updates_witness:
  "storage (snd (search demo_collaborators demo_config ''search'' [(''query'', ''a'')] None cache_b_saved))
     = storage cache_b_saved
   \<and> ms_get (storage (snd (increment_reuse demo_collaborators demo_config key_b cache_b_saved))) key_b
       = Some (entry_b_saved\<lparr>reuse_count := reuse_count entry_b_saved + 1,
                 last_accessed_at := clock demo_collaborators (steps cache_b_saved)\<rparr>)
   \<and> ms_get (storage (snd (increment_context demo_collaborators demo_config key_b cache_b_saved))) key_b
       = Some (entry_b_saved\<lparr>provide_context_count := provide_context_count entry_b_saved + 1,
                 last_accessed_at := clock demo_collaborators (steps cache_b_saved)\<rparr>)
   \<and> (\<exists>n\<ge>steps cache_b_saved.
         ms_get (storage (snd (get_best_match demo_collaborators demo_config ''search''
                                 [(''query'', ''a'')] cache_b_saved)))
           (entry_id (entry \<lparr>entry = entry_b_saved, similarity = 9 / 10, weighted_score = 9 / 10\<rparr>))
         = Some ((entry \<lparr>entry = entry_b_saved, similarity = 9 / 10, weighted_score = 9 / 10\<rparr>)
                   \<lparr>last_accessed_at := clock demo_collaborators n\<rparr>))"
proof -
  have g: "ms_get (storage cache_b_saved) key_b = Some entry_b_saved"
    by (simp add: cache_b_saved_def entry_b_saved_def demo_defs cache_defs)
  have ok: "storage_ok (storage cache_b_saved)"
    by (simp add: cache_b_saved_def storage_ok_def demo_defs cache_defs)
  have b: "fst (get_best_match demo_collaborators demo_config ''search'' [(''query'', ''a'')] cache_b_saved)
             = Inr (Some \<lparr>entry = entry_b_saved, similarity = 9 / 10, weighted_score = 9 / 10\<rparr>)"
    by (simp add: cache_b_saved_def entry_b_saved_def demo_defs cache_defs decide_defs)
  from last_accessed_at_updates[of demo_collaborators demo_config "''search''" "[(''query'', ''a'')]"
         None cache_b_saved key_b entry_b_saved
         "\<lparr>entry = entry_b_saved, similarity = 9 / 10, weighted_score = 9 / 10\<rparr>"]
       g ok b
  show ?thesis by simp
qed

subsection \<open>Saving the same call twice\<close>

lemma save_existing_stays:
  assumes ex: "ms_get (storage c) (generate_cache_id E tname (serialize_args E iargs)) = Some ex"
      and r: "fst (save E cfg tname iargs out succ c) = Inr e1"
  shows "ms_get (storage (snd (save E cfg tname iargs out succ c)))
           (generate_cache_id E tname (serialize_args E iargs)) = Some e1"
    and "e1 = ex\<lparr>entry_output := out, success := succ, last_accessed_at := clock E (steps c)\<rparr>"
  using r by (auto simp: save_existing[OF ex] ms_get_set split: option.splits if_splits)

lemma save_new_survivor:
  assumes nw: "ms_get (storage c) (generate_cache_id E tname (serialize_args E iargs)) = None"
      and g: "ms_get (storage (snd (save E cfg tname iargs out succ c)))
                (generate_cache_id E tname (serialize_args E iargs)) = Some e"
  shows "e = fresh_entry E tname iargs out succ c"
proof -
  let ?key = "generate_cache_id E tname (serialize_args E iargs)"
  let ?c3 = "c\<lparr>vector_store := vs_add ?key (embed E (serialize_args E iargs))
                     (serialize_args E iargs) tname (vector_store c),
                storage := ms_set (storage c) ?key (fresh_entry E tname iargs out succ c) 1,
                steps := steps c + 5\<rparr>"
  have nr: "\<not> set_raises E (steps c + 4)"
    using g nw by (auto simp: save_new[OF nw] split: if_splits)
  then have "storage (snd (save E cfg tname iargs out succ c)) = storage (snd (maybe_evict E cfg ?c3))"
    by (simp add: save_new[OF nw] split: prod.split option.split)
  then have "ms_get (storage (snd (maybe_evict E cfg ?c3))) ?key = Some e"
    using g by simp
  then have "ms_get (storage ?c3) ?key = Some e"
    by (rule maybe_evict_survivors)
  then show ?thesis by (simp add: ms_get_set)
qed

lemma save_stored_entry:
  assumes g: "ms_get (storage (snd (save E cfg tname iargs out succ c)))
                (generate_cache_id E tname (serialize_args E iargs)) = Some e"
      and r: "fst (save E cfg tname iargs out succ c) = Inr e1"
  shows "entry_output e = out \<and> success e = succ
       \<and> reuse_count e = (case ms_get (storage c) (generate_cache_id E tname (serialize_args E iargs)) of
                            None \<Rightarrow> 0 | Some e0 \<Rightarrow> reuse_count e0)
       \<and> provide_context_count e
           = (case ms_get (storage c) (generate_cache_id E tname (serialize_args E iargs)) of
                None \<Rightarrow> 0 | Some e0 \<Rightarrow> provide_context_count e0)"
proof (cases "ms_get (storage c) (generate_cache_id E tname (serialize_args E iargs))")
  case None
  have "e = fresh_entry E tname iargs out succ c"
    using save_new_survivor[OF None g] .
  then show ?thesis using None by (simp add: fresh_entry_fields)
next
  case (Some ex)
  from save_existing_stays[OF Some r] g show ?thesis
    using Some by simp
qed

text \<open>
  Claim C3 says two saves of the same call leave exactly one entry stored under the id. The
  eviction that ends a save of a new entry can select that new entry: with
  \<open>max_cache_size = 1\<close>, policy \<open>lfu\<close> and a stored entry that was reused once, each of the
  two saves of \<open>{"query": "a"}\<close> returns its entry and evicts it again, so no entry is stored
  under the id afterwards.
\<close>

theorem save_twice_evicted_counterexample:
  "\<not> isl (fst (save demo_collaborators demo_config ''search'' [(''query'', ''a'')] ''out1'' True
               cache_b_reused))
   \<and> \<not> isl (fst (save demo_collaborators demo_config ''search'' [(''query'', ''a'')] ''out2'' True
                 (snd (save demo_collaborators demo_config ''search'' [(''query'', ''a'')] ''out1'' True
                         cache_b_reused))))
   \<and> generate_cache_id demo_collaborators ''search'' (serialize_args demo_collaborators [(''query'', ''a'')])
       = key_a
   \<and> ms_get (storage (snd (save demo_collaborators demo_config ''search'' [(''query'', ''a'')] ''out2'' True
                 (snd (save demo_collaborators demo_config ''search'' [(''query'', ''a'')] ''out1'' True
                         cache_b_reused))))) key_a = None
   \<and> ms_keys (storage (snd (save demo_collaborators demo_config ''search'' [(''query'', ''a'')] ''out2'' True
                 (snd (save demo_collaborators demo_config ''search'' [(''query'', ''a'')] ''out1'' True
                         cache_b_reused))))) = [key_b]"
  by (simp add: cache_b_reused_def cache_b_saved_def demo_defs cache_defs decide_defs ms_keys_def)

lemma evict_all_get:
  "evict_all E ks c = (None, c') \<Longrightarrow>
   ms_get (storage c') k = (if k \<in> set ks then None else ms_get (storage c) k)"
proof (induction ks arbitrary: c)
  case Nil
  then show ?case by simp
next
  case (Cons k' ks)
  obtain r c1 where e: "evict_entry E k' c = (r, c1)" by (cases "evict_entry E k' c")
  have r: "r = None" and rest: "evict_all E ks c1 = (None, c')"
    using Cons.prems e by (auto split: option.splits)
  have g: "ms_get (storage c1) = (ms_get (storage c))(k' := None)"
    using evict_entry_get[of E k' c] e by simp
  show ?case
    using Cons.IH[OF rest] g by simp
qed

lemma exactly_one_per_key:
  "distinct (map fst al) \<Longrightarrow> map_of al k = Some v \<Longrightarrow> length (filter (\<lambda>p. fst p = k) al) = 1"
proof (induction al)
  case Nil
  then show ?case by simp
next
  case (Cons p al)
  show ?case
  proof (cases "fst p = k")
    case True
    then have "filter (\<lambda>p. fst p = k) al = []"
      using Cons.prems(1) by (auto simp: filter_empty_conv rev_image_eqI)
    then show ?thesis using True by simp
  next
    case False
    then have "map_of al k = Some v"
      using Cons.prems(2) by (cases p) (auto split: if_splits)
    then show ?thesis using Cons.IH Cons.prems(1) False by simp
  qed
qed

lemma save_stored_iff:
  assumes r: "fst (save E cfg tname iargs out succ c) = Inr e"
  shows "(ms_get (storage (snd (save E cfg tname iargs out succ c)))
            (generate_cache_id E tname (serialize_args E iargs)) = None)
         = evicts_saved_entry E cfg tname iargs out succ c"
proof (cases "ms_get (storage c) (generate_cache_id E tname (serialize_args E iargs))")
  case (Some ex)
  have "ms_get (storage (snd (save E cfg tname iargs out succ c)))
          (generate_cache_id E tname (serialize_args E iargs)) = Some e"
    using save_existing_stays(1)[OF Some r] .
  then show ?thesis using Some by (simp add: evicts_saved_entry_def Let_def)
next
  case None
  let ?key = "generate_cache_id E tname (serialize_args E iargs)"
  let ?s3 = "ms_set (storage c) ?key (fresh_entry E tname iargs out succ c) 1"
  let ?c3 = "c\<lparr>vector_store := vs_add ?key (embed E (serialize_args E iargs))
                     (serialize_args E iargs) tname (vector_store c),
                storage := ?s3, steps := steps c + 5\<rparr>"
  obtain r3 c4 where me: "maybe_evict E cfg ?c3 = (r3, c4)" by (cases "maybe_evict E cfg ?c3")
  have nr: "\<not> set_raises E (steps c + 4)"
    using r by (auto simp: save_new[OF None])
  have r3: "r3 = None"
    using r nr me by (auto simp: save_new[OF None] split: option.splits)
  have c4: "snd (save E cfg tname iargs out succ c) = c4"
    using nr me r3 by (simp add: save_new[OF None])
  have g3: "ms_get (storage ?c3) ?key = Some (fresh_entry E tname iargs out succ c)"
    by (simp add: ms_get_set)
  show ?thesis
  proof (cases "ms_size ?s3 \<le> max_cache_size cfg")
    case True
    then have "c4 = ?c3" using me by (simp add: maybe_evict_unfold)
    then show ?thesis
      using c4 g3 True None by (simp add: evicts_saved_entry_def Let_def)
  next
    case False
    then have ea: "evict_all E (evict_keys_of cfg ?s3 (ms_size ?s3 - max_cache_size cfg)) ?c3 = (None, c4)"
      using me r3 by (simp add: maybe_evict_unfold)
    have "ms_get (storage c4) ?key
            = (if ?key \<in> set (evict_keys_of cfg ?s3 (ms_size ?s3 - max_cache_size cfg)) then None
               else ms_get (storage ?c3) ?key)"
      using evict_all_get[OF ea] .
    then show ?thesis
      using c4 g3 False None by (simp add: evicts_saved_entry_def Let_def)
  qed
qed

lemma save_with_room_not_evicted:
  assumes "ms_size (storage c) < max_cache_size cfg"
  shows "\<not> evicts_saved_entry E cfg tname iargs out succ c"
proof
  let ?key = "generate_cache_id E tname (serialize_args E iargs)"
  assume ev: "evicts_saved_entry E cfg tname iargs out succ c"
  then have nw: "ms_get (storage c) ?key = None"
    by (simp add: evicts_saved_entry_def Let_def)
  then have "?key \<notin> set (ms_keys (storage c))"
    using ms_get_keys[of "storage c" ?key] by simp
  then have "ms_size (ms_set (storage c) ?key (fresh_entry E tname iargs out succ c) 1)
               = ms_size (storage c) + 1"
    by (simp add: ms_size_keys ms_keys_set)
  then show False
    using ev assms by (simp add: evicts_saved_entry_def Let_def)
qed

text \<open>
  Claim C3, amended. After two saves of the same \<open>(tool_name, input_args)\<close> that both return,
  exactly one entry is stored under the deterministic id, its output is the second output,
  its success flag the second flag, and its two counters are those the entry had before the
  first save (zero when no entry was stored then), with one exception: no entry is stored
  under the id exactly when the second save stores a new entry and the eviction that ends it
  selects that entry. The exception does not arise when an entry was stored under the id
  before the first save, nor when the cache held fewer than \<open>max_cache_size\<close> entries before
  the first save.
\<close>

theorem save_twice_overwrites:
  assumes ok: "storage_ok (storage c)"
      and r1: "fst (save E cfg tname iargs out1 succ1 c) = Inr e1"
      and r2: "fst (save E cfg tname iargs out2 succ2 (snd (save E cfg tname iargs out1 succ1 c))) = Inr e2"
  shows "((ms_get (storage (snd (save E cfg tname iargs out2 succ2
                                   (snd (save E cfg tname iargs out1 succ1 c)))))
             (generate_cache_id E tname (serialize_args E iargs)) = None)
          = evicts_saved_entry E cfg tname iargs out2 succ2 (snd (save E cfg tname iargs out1 succ1 c)))
       \<and> (\<not> evicts_saved_entry E cfg tname iargs out2 succ2 (snd (save E cfg tname iargs out1 succ1 c))
            \<longrightarrow>
            length (filter (\<lambda>p. fst p = generate_cache_id E tname (serialize_args E iargs))
                      (data (storage (snd (save E cfg tname iargs out2 succ2
                                             (snd (save E cfg tname iargs out1 succ1 c))))))) = 1
            \<and> (\<exists>e. ms_get (storage (snd (save E cfg tname iargs out2 succ2
                                           (snd (save E cfg tname iargs out1 succ1 c)))))
                      (generate_cache_id E tname (serialize_args E iargs)) = Some e
                   \<and> entry_output e = out2 \<and> success e = succ2)
            \<and> counters (storage (snd (save E cfg tname iargs out2 succ2
                                        (snd (save E cfg tname iargs out1 succ1 c)))))
                 (generate_cache_id E tname (serialize_args E iargs))
               = Some (case counters (storage c) (generate_cache_id E tname (serialize_args E iargs)) of
                         None \<Rightarrow> (0, 0) | Some rp \<Rightarrow> rp))
       \<and> (ms_get (storage c) (generate_cache_id E tname (serialize_args E iargs)) \<noteq> None
            \<or> ms_size (storage c) < max_cache_size cfg \<longrightarrow>
            \<not> evicts_saved_entry E cfg tname iargs out2 succ2 (snd (save E cfg tname iargs out1 succ1 c)))"
proof -
  let ?key = "generate_cache_id E tname (serialize_args E iargs)"
  let ?c1 = "snd (save E cfg tname iargs out1 succ1 c)"
  let ?c2 = "snd (save E cfg tname iargs out2 succ2 ?c1)"
  have iff2: "(ms_get (storage ?c2) ?key = None) = evicts_saved_entry E cfg tname iargs out2 succ2 ?c1"
    using r2 by (rule save_stored_iff)
  have iff1: "(ms_get (storage ?c1) ?key = None) = evicts_saved_entry E cfg tname iargs out1 succ1 c"
    using r1 by (rule save_stored_iff)
  have ok2: "storage_ok (storage ?c2)"
    using ok by (intro save_ok)
  have mid: "(case ms_get (storage ?c1) ?key of None \<Rightarrow> (0, 0)
              | Some e' \<Rightarrow> (reuse_count e', provide_context_count e'))
             = (case ms_get (storage c) ?key of None \<Rightarrow> (0, 0)
                | Some e0 \<Rightarrow> (reuse_count e0, provide_context_count e0))"
  proof (cases "ms_get (storage ?c1) ?key")
    case None
    then have "ms_get (storage c) ?key = None"
      using save_existing_stays(1)[OF _ r1] by (cases "ms_get (storage c) ?key") auto
    then show ?thesis using None by simp
  next
    case (Some e')
    from save_stored_entry[OF Some r1] show ?thesis
      using Some by (simp split: option.splits)
  qed
  have stored: "length (filter (\<lambda>p. fst p = ?key) (data (storage ?c2))) = 1
            \<and> (\<exists>e. ms_get (storage ?c2) ?key = Some e \<and> entry_output e = out2 \<and> success e = succ2)
            \<and> counters (storage ?c2) ?key
               = Some (case counters (storage c) ?key of None \<Rightarrow> (0, 0) | Some rp \<Rightarrow> rp)"
    if ne: "\<not> evicts_saved_entry E cfg tname iargs out2 succ2 ?c1"
  proof -
    from ne iff2 obtain e where g: "ms_get (storage ?c2) ?key = Some e" by auto
    have one: "length (filter (\<lambda>p. fst p = ?key) (data (storage ?c2))) = 1"
      using ok2 g by (intro exactly_one_per_key[where v = e]) (simp_all add: storage_ok_def ms_get_def)
    from save_stored_entry[OF g r2] have
      f: "entry_output e = out2" "success e = succ2"
      "(reuse_count e, provide_context_count e)
         = (case ms_get (storage ?c1) ?key of None \<Rightarrow> (0, 0)
            | Some e' \<Rightarrow> (reuse_count e', provide_context_count e'))"
      by (simp_all split: option.splits)
    have "counters (storage ?c2) ?key
            = Some (case counters (storage c) ?key of None \<Rightarrow> (0, 0) | Some rp \<Rightarrow> rp)"
      using g f(3) mid by (simp add: counters_def split: option.splits)
    with one g f(1,2) show ?thesis by blast
  qed
  have safe: "\<not> evicts_saved_entry E cfg tname iargs out2 succ2 ?c1"
    if h: "ms_get (storage c) ?key \<noteq> None \<or> ms_size (storage c) < max_cache_size cfg"
  proof -
    have "\<not> evicts_saved_entry E cfg tname iargs out1 succ1 c"
      using h
    proof
      assume "ms_get (storage c) ?key \<noteq> None"
      then show ?thesis by (simp add: evicts_saved_entry_def Let_def)
    next
      assume "ms_size (storage c) < max_cache_size cfg"
      then show ?thesis by (rule save_with_room_not_evicted)
    qed
    then have "ms_get (storage ?c1) ?key \<noteq> None" using iff1 by simp
    then show ?thesis by (simp add: evicts_saved_entry_def Let_def)
  qed
  from iff2 stored safe show ?thesis by blast
qed


theorem save_twice_overwrites_witness:
  "(ms_size (storage empty_cache) < max_cache_size demo_config
    \<and> length (filter (\<lambda>p. fst p = key_a)
         (data (storage (snd (save demo_collaborators demo_config ''search'' [(''query'', ''a'')]
                                ''out2'' False
                                (snd (save demo_collaborators demo_config ''search'' [(''query'', ''a'')]
                                        ''out1'' True empty_cache))))))) = 1
    \<and> (\<exists>e. ms_get (storage (snd (save demo_collaborators demo_config ''search'' [(''query'', ''a'')]
                                  ''out2'' False
                                  (snd (save demo_collaborators demo_config ''search'' [(''query'', ''a'')]
                                          ''out1'' True empty_cache))))) key_a = Some e
           \<and> entry_output e = ''out2'' \<and> success e = False)
    \<and> counters (storage (snd (save demo_collaborators demo_config ''search'' [(''query'', ''a'')]
                                ''out2'' False
                                (snd (save demo_collaborators demo_config ''search'' [(''query'', ''a'')]
                                        ''out1'' True empty_cache))))) key_a = Some (0, 0))
   \<and> (counters (storage cache_b_reused) key_b = Some (1, 0)
    \<and> length (filter (\<lambda>p. fst p = key_b)
         (data (storage (snd (save demo_collaborators demo_config ''search'' [(''query'', ''b'')]
                                ''out2'' False
                                (snd (save demo_collaborators demo_config ''search'' [(''query'', ''b'')]
                                        ''out1'' True cache_b_reused))))))) = 1
    \<and> (\<exists>e. ms_get (storage (snd (save demo_collaborators demo_config ''search'' [(''query'', ''b'')]
                                  ''out2'' False
                                  (snd (save demo_collaborators demo_config ''search'' [(''query'', ''b'')]
                                          ''out1'' True cache_b_reused))))) key_b = Some e
           \<and> entry_output e = ''out2'' \<and> success e = False)
    \<and> counters (storage (snd (save demo_collaborators demo_config ''search'' [(''query'', ''b'')]
                                ''out2'' False
                                (snd (save demo_collaborators demo_config ''search'' [(''query'', ''b'')]
                                        ''out1'' True cache_b_reused))))) key_b = Some (1, 0))
   \<and> (ms_get (storage (snd (save demo_collaborators demo_config ''search'' [(''query'', ''a'')]
                              ''out2'' True
                              (snd (save demo_collaborators demo_config ''search'' [(''query'', ''a'')]
                                      ''out1'' True cache_b_reused))))) key_a = None
    \<and> evicts_saved_entry demo_collaborators demo_config ''search'' [(''query'', ''a'')] ''out2'' True
         (snd (save demo_collaborators demo_config ''search'' [(''query'', ''a'')] ''out1'' True
                 cache_b_reused)))"
proof -
  have ka: "generate_cache_id demo_collaborators ''search''
              (serialize_args demo_collaborators [(''query'', ''a'')]) = key_a"
    and kb: "generate_cache_id demo_collaborators ''search''
              (serialize_args demo_collaborators [(''query'', ''b'')]) = key_b"
    by (simp_all add: demo_defs)
  have ok0: "storage_ok (storage empty_cache)"
    by (simp add: empty_cache_def storage_ok_def)
  have okb: "storage_ok (storage cache_b_reused)"
    unfolding cache_b_reused_def cache_b_saved_def
    by (intro apply_op_ok) (simp add: empty_cache_def storage_ok_def)
  have room: "ms_size (storage empty_cache) < max_cache_size demo_config"
    and c00: "counters (storage empty_cache) key_a = None"
    by (simp_all add: empty_cache_def ms_size_def counters_def ms_get_def demo_config_def)
  have "\<exists>e1. fst (save demo_collaborators demo_config ''search'' [(''query'', ''a'')] ''out1'' True
                     empty_cache) = Inr e1"
    by (simp add: demo_defs cache_defs)
  then obtain a1 where a1: "fst (save demo_collaborators demo_config ''search'' [(''query'', ''a'')]
                                   ''out1'' True empty_cache) = Inr a1" ..
  have "\<exists>e2. fst (save demo_collaborators demo_config ''search'' [(''query'', ''a'')] ''out2'' False
                     (snd (save demo_collaborators demo_config ''search'' [(''query'', ''a'')] ''out1''
                             True empty_cache))) = Inr e2"
    by (simp add: demo_defs cache_defs)
  then obtain a2 where a2: "fst (save demo_collaborators demo_config ''search'' [(''query'', ''a'')]
                                   ''out2'' False
                                   (snd (save demo_collaborators demo_config ''search''
                                           [(''query'', ''a'')] ''out1'' True empty_cache))) = Inr a2" ..
  note ta = save_twice_overwrites[OF ok0 a1 a2, unfolded ka]
  have pa: "length (filter (\<lambda>p. fst p = key_a)
         (data (storage (snd (save demo_collaborators demo_config ''search'' [(''query'', ''a'')]
                                ''out2'' False
                                (snd (save demo_collaborators demo_config ''search'' [(''query'', ''a'')]
                                        ''out1'' True empty_cache))))))) = 1
    \<and> (\<exists>e. ms_get (storage (snd (save demo_collaborators demo_config ''search'' [(''query'', ''a'')]
                                  ''out2'' False
                                  (snd (save demo_collaborators demo_config ''search'' [(''query'', ''a'')]
                                          ''out1'' True empty_cache))))) key_a = Some e
           \<and> entry_output e = ''out2'' \<and> success e = False)
    \<and> counters (storage (snd (save demo_collaborators demo_config ''search'' [(''query'', ''a'')]
                                ''out2'' False
                                (snd (save demo_collaborators demo_config ''search'' [(''query'', ''a'')]
                                        ''out1'' True empty_cache))))) key_a = Some (0, 0)"
    using ta room c00 by simp
  have g0: "ms_get (storage cache_b_reused) key_b \<noteq> None"
    and c0: "counters (storage cache_b_reused) key_b = Some (1, 0)"
    by (simp_all add: cache_b_reused_def cache_b_saved_def counters_def demo_defs cache_defs decide_defs)
  have "\<exists>e1. fst (save demo_collaborators demo_config ''search'' [(''query'', ''b'')] ''out1'' True
                     cache_b_reused) = Inr e1"
    by (simp add: cache_b_reused_def cache_b_saved_def demo_defs cache_defs decide_defs)
  then obtain b1 where b1: "fst (save demo_collaborators demo_config ''search'' [(''query'', ''b'')]
                                   ''out1'' True cache_b_reused) = Inr b1" ..
  have "\<exists>e2. fst (save demo_collaborators demo_config ''search'' [(''query'', ''b'')] ''out2'' False
                     (snd (save demo_collaborators demo_config ''search'' [(''query'', ''b'')] ''out1''
                             True cache_b_reused))) = Inr e2"
    by (simp add: cache_b_reused_def cache_b_saved_def demo_defs cache_defs decide_defs)
  then obtain b2 where b2: "fst (save demo_collaborators demo_config ''search'' [(''query'', ''b'')]
                                   ''out2'' False
                                   (snd (save demo_collaborators demo_config ''search''
                                           [(''query'', ''b'')] ''out1'' True cache_b_reused))) = Inr b2" ..
  note tb = save_twice_overwrites[OF okb b1 b2, unfolded kb]
  have pb: "length (filter (\<lambda>p. fst p = key_b)
         (data (storage (snd (save demo_collaborators demo_config ''search'' [(''query'', ''b'')]
                                ''out2'' False
                                (snd (save demo_collaborators demo_config ''search'' [(''query'', ''b'')]
                                        ''out1'' True cache_b_reused))))))) = 1
    \<and> (\<exists>e. ms_get (storage (snd (save demo_collaborators demo_config ''search'' [(''query'', ''b'')]
                                  ''out2'' False
                                  (snd (save demo_collaborators demo_config ''search'' [(''query'', ''b'')]
                                          ''out1'' True cache_b_reused))))) key_b = Some e
           \<and> entry_output e = ''out2'' \<and> success e = False)
    \<and> counters (storage (snd (save demo_collaborators demo_config ''search'' [(''query'', ''b'')]
                                ''out2'' False
                                (snd (save demo_collaborators demo_config ''search'' [(''query'', ''b'')]
                                        ''out1'' True cache_b_reused))))) key_b = Some (1, 0)"
    using tb g0 c0 by simp
  have "\<exists>e1. fst (save demo_collaborators demo_config ''search'' [(''query'', ''a'')] ''out1'' True
                     cache_b_reused) = Inr e1"
    by (simp add: cache_b_reused_def cache_b_saved_def demo_defs cache_defs decide_defs)
  then obtain x1 where x1: "fst (save demo_collaborators demo_config ''search'' [(''query'', ''a'')]
                                   ''out1'' True cache_b_reused) = Inr x1" ..
  have "\<exists>e2. fst (save demo_collaborators demo_config ''search'' [(''query'', ''a'')] ''out2'' True
                     (snd (save demo_collaborators demo_config ''search'' [(''query'', ''a'')] ''out1''
                             True cache_b_reused))) = Inr e2"
    by (simp add: cache_b_reused_def cache_b_saved_def demo_defs cache_defs decide_defs)
  then obtain x2 where x2: "fst (save demo_collaborators demo_config ''search'' [(''query'', ''a'')]
                                   ''out2'' True
                                   (snd (save demo_collaborators demo_config ''search''
                                           [(''query'', ''a'')] ''out1'' True cache_b_reused))) = Inr x2" ..
  have gone: "ms_get (storage (snd (save demo_collaborators demo_config ''search'' [(''query'', ''a'')]
                              ''out2'' True
                              (snd (save demo_collaborators demo_config ''search'' [(''query'', ''a'')]
                                      ''out1'' True cache_b_reused))))) key_a = None"
    by (simp add: cache_b_reused_def cache_b_saved_def demo_defs cache_defs decide_defs)
  note tx = save_twice_overwrites[OF okb x1 x2, unfolded ka]
  have px: "evicts_saved_entry demo_collaborators demo_config ''search'' [(''query'', ''a'')] ''out2'' True
         (snd (save demo_collaborators demo_config ''search'' [(''query'', ''a'')] ''out1'' True
                 cache_b_reused))"
    using tx gone by simp
  from room pa c0 pb gone px show ?thesis by blast
qed

subsection \<open>The counters never decrease, except by the decrement\<close>

lemma counters_grow_refl: "counters_grow s s"
  by (simp add: counters_grow_def)

lemma counters_grow_trans: "counters_grow s s' \<Longrightarrow> counters_grow s' s'' \<Longrightarrow> counters_grow s s''"
  unfolding counters_grow_def by (meson order_trans)

lemma counters_grow_eq: "ms_get s' = ms_get s \<Longrightarrow> counters_grow s s'"
  by (simp add: counters_grow_def)

lemma counters_growD:
  assumes "counters_grow s s'" "ms_get s k = Some e" "ms_get s' k = Some e'"
  shows "reuse_count e \<le> reuse_count e' \<and> provide_context_count e \<le> provide_context_count e'"
  using assms unfolding counters_grow_def by fastforce

lemma increment_reuse_grows: "counters_grow (storage c) (storage (snd (increment_reuse E cfg key c)))"
  unfolding counters_grow_def
  by (simp add: increment_reuse_get ms_get_increment_reuse split: option.split)

lemma increment_context_grows: "counters_grow (storage c) (storage (snd (increment_context E cfg key c)))"
  unfolding counters_grow_def
  by (simp add: increment_context_get ms_get_increment_context split: option.split)

lemma touch_entry_grows: "counters_grow (storage c) (storage (snd (touch_entry E cfg key c)))"
  unfolding counters_grow_def
  by (simp add: touch_entry_get ms_get_update_access_time split: option.split)

lemma increment_context_all_grows:
  "counters_grow (storage c) (storage (snd (increment_context_all E cfg hs c)))"
proof (induction hs arbitrary: c)
  case Nil
  show ?case by (simp add: counters_grow_refl)
next
  case (Cons h hs)
  obtain r c1 where e: "increment_context E cfg (entry_id (entry h)) c = (r, c1)"
    by (cases "increment_context E cfg (entry_id (entry h)) c")
  have g1: "counters_grow (storage c) (storage c1)"
    using increment_context_grows[of c E cfg "entry_id (entry h)"] e by simp
  show ?case
  proof (cases r)
    case (Inl err)
    then show ?thesis using e g1 by simp
  next
    case (Inr b)
    then show ?thesis
      using e counters_grow_trans[OF g1 Cons.IH[of c1]] by simp
  qed
qed

lemma get_best_match_grows:
  "counters_grow (storage c) (storage (snd (get_best_match E cfg tname iargs c)))"
  using get_best_match_storage[of E cfg tname iargs c] touch_entry_grows counters_grow_refl
  by (metis (no_types))

lemma decide_grows:
  "counters_grow (storage c) (storage (snd (decide E icfg cfg tname iargs c)))"
  using decide_state[of c E icfg cfg tname iargs] increment_reuse_grows increment_context_all_grows
    counters_grow_refl
  by (metis (no_types))

lemma save_keeps_counters:
  assumes b: "ms_get (storage c) k = Some e"
      and a: "ms_get (storage (snd (save E cfg tname iargs out succ c))) k = Some e'"
  shows "reuse_count e' = reuse_count e \<and> provide_context_count e' = provide_context_count e"
proof (cases "ms_get (storage c) (generate_cache_id E tname (serialize_args E iargs))")
  case None
  let ?key = "generate_cache_id E tname (serialize_args E iargs)"
  let ?c3 = "c\<lparr>vector_store := vs_add ?key (embed E (serialize_args E iargs))
                     (serialize_args E iargs) tname (vector_store c),
                storage := ms_set (storage c) ?key (fresh_entry E tname iargs out succ c) 1,
                steps := steps c + 5\<rparr>"
  have kk: "k \<noteq> ?key" using None b by auto
  have "storage (snd (save E cfg tname iargs out succ c)) = storage c
        \<or> storage (snd (save E cfg tname iargs out succ c)) = storage (snd (maybe_evict E cfg ?c3))"
    by (simp add: save_new[OF None] split: prod.split option.split)
  then show ?thesis
  proof
    assume "storage (snd (save E cfg tname iargs out succ c)) = storage c"
    then show ?thesis using a b by simp
  next
    assume "storage (snd (save E cfg tname iargs out succ c)) = storage (snd (maybe_evict E cfg ?c3))"
    then have "ms_get (storage (snd (maybe_evict E cfg ?c3))) k = Some e'" using a by simp
    then have "ms_get (storage ?c3) k = Some e'" by (rule maybe_evict_survivors)
    then show ?thesis using kk b by (simp add: ms_get_set)
  qed
next
  case (Some ex)
  let ?key = "generate_cache_id E tname (serialize_args E iargs)"
  let ?e = "ex\<lparr>entry_output := out, success := succ, last_accessed_at := clock E (steps c)\<rparr>"
  have "storage (snd (save E cfg tname iargs out succ c)) = storage c
        \<or> (\<exists>sc. storage (snd (save E cfg tname iargs out succ c)) = ms_set (storage c) ?key ?e sc)"
    by (auto simp: save_existing[OF Some] split: option.split)
  then show ?thesis
  proof (elim disjE exE)
    assume "storage (snd (save E cfg tname iargs out succ c)) = storage c"
    then show ?thesis using a b by simp
  next
    fix sc
    assume "storage (snd (save E cfg tname iargs out succ c)) = ms_set (storage c) ?key ?e sc"
    then have "((ms_get (storage c))(?key \<mapsto> ?e)) k = Some e'"
      using a by (simp add: ms_get_set)
    then show ?thesis using b Some by (auto split: if_splits)
  qed
qed

lemma apply_op_counters_mono:
  assumes nd: "\<forall>key. op \<noteq> OpDecrementReference key"
      and b: "ms_get (storage c) k = Some e"
      and a: "ms_get (storage (apply_op E cfg op c)) k = Some e'"
  shows "reuse_count e \<le> reuse_count e' \<and> provide_context_count e \<le> provide_context_count e'"
proof (cases op)
  case (OpSave tname iargs out succ)
  then show ?thesis using save_keeps_counters[OF b, of E cfg tname iargs out succ e'] a by simp
next
  case (OpSearch tname iargs k')
  then show ?thesis using a b by (simp add: search_storage)
next
  case (OpGetBestMatch tname iargs)
  then show ?thesis
    using counters_growD[OF get_best_match_grows b, of E cfg tname iargs e'] a by simp
next
  case (OpIncrementReuse key)
  then show ?thesis
    using counters_growD[OF increment_reuse_grows b, of E cfg key e'] a by simp
next
  case (OpIncrementContext key)
  then show ?thesis
    using counters_growD[OF increment_context_grows b, of E cfg key e'] a by simp
next
  case (OpDecrementReference key)
  then show ?thesis using nd by simp
next
  case (OpDecide icfg tname iargs)
  then show ?thesis
    using counters_growD[OF decide_grows b, of E icfg cfg tname iargs e'] a by simp
next
  case OpClear
  then show ?thesis using a by (simp add: clear_def ms_clear_def ms_get_def)
qed

text \<open>
  Claim C8. In every state reachable from the empty cache, both counters of every stored
  entry are non-negative. An operation other than the decrement never lowers a counter of
  an entry it leaves stored. \<open>decrement_reference\<close> lowers the reuse count by one when it is
  positive, otherwise the context count by one when that is positive, otherwise nothing,
  and touches no other entry; being an operation, it keeps the counters non-negative.
\<close>

theorem counters_nonnegative_and_monotone:
  "(reachable E cfg c \<longrightarrow>
      (\<forall>k e. ms_get (storage c) k = Some e \<longrightarrow> 0 \<le> reuse_count e \<and> 0 \<le> provide_context_count e))
   \<and> ((\<forall>key. op \<noteq> OpDecrementReference key) \<and> ms_get (storage c) k = Some e
        \<and> ms_get (storage (apply_op E cfg op c)) k = Some e' \<longrightarrow>
        reuse_count e \<le> reuse_count e' \<and> provide_context_count e \<le> provide_context_count e')
   \<and> (ms_get (storage c) k = Some e \<longrightarrow>
        ms_get (storage (apply_op E cfg (OpDecrementReference k) c)) k
          = Some (if 0 < reuse_count e then e\<lparr>reuse_count := reuse_count e - 1\<rparr>
                  else if 0 < provide_context_count e
                  then e\<lparr>provide_context_count := provide_context_count e - 1\<rparr>
                  else e))
   \<and> (k' \<noteq> k \<longrightarrow>
        ms_get (storage (apply_op E cfg (OpDecrementReference k) c)) k' = ms_get (storage c) k')"
proof -
  have p1: "0 \<le> reuse_count e0 \<and> 0 \<le> provide_context_count e0"
    if "reachable E cfg c" "ms_get (storage c) k0 = Some e0" for k0 e0
    using storage_okD(2,3)[OF reachable_storage_ok[OF that(1)] that(2)] by simp
  have p3: "ms_get (storage (apply_op E cfg (OpDecrementReference k) c)) k
          = Some (if 0 < reuse_count e then e\<lparr>reuse_count := reuse_count e - 1\<rparr>
                  else if 0 < provide_context_count e
                  then e\<lparr>provide_context_count := provide_context_count e - 1\<rparr>
                  else e)"
    if "ms_get (storage c) k = Some e"
    using that by (simp add: ms_get_decrement_reference)
  have p4: "ms_get (storage (apply_op E cfg (OpDecrementReference k) c)) k' = ms_get (storage c) k'"
    if "k' \<noteq> k"
    using that by (simp add: ms_get_decrement_reference split: option.split)
  from p1 apply_op_counters_mono[of op c k e E cfg e'] p3 p4 show ?thesis
    by blast
qed

theorem counters_nonnegative_and_monotone_witness:
  "reachable demo_collaborators demo_config cache_b_reused
   \<and> counters (storage cache_b_reused) key_b = Some (1, 0)
   \<and> (\<exists>e. ms_get (storage cache_b_reused) key_b = Some e
          \<and> 0 \<le> reuse_count e \<and> 0 \<le> provide_context_count e
          \<and> (\<exists>e'. ms_get (storage (apply_op demo_collaborators demo_config (OpIncrementContext key_b)
                                     cache_b_reused)) key_b = Some e'
                 \<and> reuse_count e \<le> reuse_count e'
                 \<and> provide_context_count e \<le> provide_context_count e')
          \<and> ms_get (storage (apply_op demo_collaborators demo_config (OpDecrementReference key_b)
                               cache_b_reused)) key_b
              = Some (e\<lparr>reuse_count := 0\<rparr>))"
proof -
  have r: "reachable demo_collaborators demo_config cache_b_reused"
    unfolding cache_b_reused_def cache_b_saved_def
    by (intro reachable_step reachable_empty)
  have c0: "counters (storage cache_b_reused) key_b = Some (1, 0)"
    by (simp add: cache_b_reused_def cache_b_saved_def counters_def demo_defs cache_defs decide_defs)
  then obtain e where e: "ms_get (storage cache_b_reused) key_b = Some e"
      and rc: "reuse_count e = 1" and pc: "provide_context_count e = 0"
    by (auto simp: counters_def)
  have "\<exists>e'. ms_get (storage (apply_op demo_collaborators demo_config (OpIncrementContext key_b)
                                 cache_b_reused)) key_b = Some e'"
    using e by (simp add: increment_context_entry)
  then obtain e' where e': "ms_get (storage (apply_op demo_collaborators demo_config
                                      (OpIncrementContext key_b) cache_b_reused)) key_b = Some e'" ..
  note t = counters_nonnegative_and_monotone[of demo_collaborators demo_config cache_b_reused
             "OpIncrementContext key_b" key_b e e']
  have "0 \<le> reuse_count e \<and> 0 \<le> provide_context_count e" using t r e by blast
  moreover have "reuse_count e \<le> reuse_count e' \<and> provide_context_count e \<le> provide_context_count e'"
    using t e e' by simp
  moreover have "ms_get (storage (apply_op demo_collaborators demo_config (OpDecrementReference key_b)
                               cache_b_reused)) key_b = Some (e\<lparr>reuse_count := 0\<rparr>)"
    using t e rc by simp
  ultimately show ?thesis using r c0 e e' by blast
qed

subsection \<open>The decision and its effect on the counters\<close>

lemma counters_increment_reuse:
  "counters (storage (snd (increment_reuse E cfg key c))) k
     = (if k = key then map_option (\<lambda>(r, p). (r + 1, p)) (counters (storage c) k)
        else counters (storage c) k)"
  by (simp add: counters_def increment_reuse_get ms_get_increment_reuse split: option.split)

lemma counters_increment_context:
  "counters (storage (snd (increment_context E cfg key c))) k
     = (if k = key then map_option (\<lambda>(r, p). (r, p + 1)) (counters (storage c) k)
        else counters (storage c) k)"
  by (simp add: counters_def increment_context_get ms_get_increment_context split: option.split)

lemma increment_reuse_no_error:
  assumes ok: "storage_ok (storage c)"
      and f: "0 \<le> reuse_context_factor cfg" "reuse_context_factor cfg \<le> 1"
  shows "\<exists>b. fst (increment_reuse E cfg key c) = Inr b"
proof (cases "ms_get (storage c) key")
  case None
  then have "ms_increment_reuse (clock E (steps c)) (storage c) key = (False, storage c)"
    by (simp add: ms_increment_reuse_def ms_get_def)
  then show ?thesis by (auto simp: increment_reuse_def)
next
  case (Some e)
  show ?thesis using increment_reuse_result[OF ok f Some, of E] by blast
qed

lemma increment_context_no_error:
  assumes ok: "storage_ok (storage c)"
      and f: "0 \<le> reuse_context_factor cfg" "reuse_context_factor cfg \<le> 1"
  shows "\<exists>b. fst (increment_context E cfg key c) = Inr b"
proof (cases "ms_get (storage c) key")
  case None
  then have "ms_increment_context (clock E (steps c)) (storage c) key = (False, storage c)"
    by (simp add: ms_increment_context_def ms_get_def)
  then show ?thesis by (auto simp: increment_context_def)
next
  case (Some e)
  show ?thesis using increment_context_result[OF ok f Some, of E] by blast
qed

lemma increment_context_all_effect:
  assumes "storage_ok (storage c)"
      and f: "0 \<le> reuse_context_factor cfg" "reuse_context_factor cfg \<le> 1"
      and "distinct (map (\<lambda>h. entry_id (entry h)) hs)"
  shows "fst (increment_context_all E cfg hs c) = None
       \<and> (\<forall>k. counters (storage (snd (increment_context_all E cfg hs c))) k
                = (if k \<in> (\<lambda>h. entry_id (entry h)) ` set hs
                   then map_option (\<lambda>(r, p). (r, p + 1)) (counters (storage c) k)
                   else counters (storage c) k))"
  using assms(1,4)
proof (induction hs arbitrary: c)
  case Nil
  show ?case by simp
next
  case (Cons h hs)
  obtain r c1 where e: "increment_context E cfg (entry_id (entry h)) c = (r, c1)"
    by (cases "increment_context E cfg (entry_id (entry h)) c")
  obtain b where r: "r = Inr b"
    using increment_context_no_error[OF Cons.prems(1) f, of E "entry_id (entry h)"] e by auto
  have ok1: "storage_ok (storage c1)"
    using increment_context_ok[OF Cons.prems(1), of E cfg "entry_id (entry h)"] e by simp
  have c1: "counters (storage c1) k
              = (if k = entry_id (entry h) then map_option (\<lambda>(r, p). (r, p + 1)) (counters (storage c) k)
                 else counters (storage c) k)" for k
    using counters_increment_context[of E cfg "entry_id (entry h)" c k] e by simp
  have d: "distinct (map (\<lambda>h. entry_id (entry h)) hs)"
      and nin: "entry_id (entry h) \<notin> (\<lambda>h. entry_id (entry h)) ` set hs"
    using Cons.prems(2) by simp_all
  note ih = Cons.IH[OF ok1 d]
  have all: "increment_context_all E cfg (h # hs) c = increment_context_all E cfg hs c1"
    using e r by simp
  show ?case
    unfolding all using ih c1 nin by auto
qed

text \<open>
  Claim C1. Let \<open>hits\<close> be what the cache search returns for the call. On a well-formed
  storage, with the reuse/context factor of the cache in \<open>[0, 1]\<close> and an index that
  returns each id at most once, \<open>decide\<close> returns a decision and:
  with no hits it is \<open>EXECUTE\<close> and no counter changes;
  when the first hit reaches the reuse threshold it is \<open>REUSE\<close> with that hit, the entry of
  that hit is stored, its reuse count grows by one and no other counter changes;
  otherwise, when the first hit reaches the similarity threshold and some hit is successful,
  it is \<open>PROVIDE_CONTEXT\<close> with the first three successful hits as hints, each hint's entry
  is stored, the context count of each grows by one and no other counter changes;
  otherwise it is \<open>EXECUTE\<close> and no counter changes.
\<close>

theorem decide_classifies:
  assumes ok: "storage_ok (storage c)"
      and f: "0 \<le> reuse_context_factor cfg" "reuse_context_factor cfg \<le> 1"
      and d: "distinct (map fst (vs_search E (vector_store c) (embed E (serialize_args E iargs))
                 (top_k cfg) tname))"
  shows "\<exists>hits c1 r c'.
     search E cfg tname iargs None c = (Inr hits, c1) \<and>
     decide E icfg cfg tname iargs c = (Inr r, c') \<and>
     (hits = [] \<longrightarrow>
        r = \<lparr>decision = EXECUTE, cache_hit = None, context_hints = None\<rparr>
        \<and> counters (storage c') = counters (storage c)) \<and>
     (hits \<noteq> [] \<and> reuse_threshold icfg \<le> similarity (hd hits) \<longrightarrow>
        r = \<lparr>decision = REUSE, cache_hit = Some (hd hits), context_hints = None\<rparr>
        \<and> counters (storage c) (entry_id (entry (hd hits))) \<noteq> None
        \<and> (\<forall>k. counters (storage c') k
                 = (if k = entry_id (entry (hd hits))
                    then map_option (\<lambda>(r, p). (r + 1, p)) (counters (storage c) k)
                    else counters (storage c) k))) \<and>
     (hits \<noteq> [] \<and> \<not> reuse_threshold icfg \<le> similarity (hd hits)
        \<and> similarity_threshold icfg \<le> similarity (hd hits)
        \<and> (\<exists>h \<in> set hits. success (entry h)) \<longrightarrow>
        r = \<lparr>decision = PROVIDE_CONTEXT, cache_hit = None,
              context_hints = Some (take 3 (filter (\<lambda>h. success (entry h)) hits))\<rparr>
        \<and> (\<forall>h \<in> set (take 3 (filter (\<lambda>h. success (entry h)) hits)).
               counters (storage c) (entry_id (entry h)) \<noteq> None)
        \<and> (\<forall>k. counters (storage c') k
                 = (if k \<in> (\<lambda>h. entry_id (entry h)) ` set (take 3 (filter (\<lambda>h. success (entry h)) hits))
                    then map_option (\<lambda>(r, p). (r, p + 1)) (counters (storage c) k)
                    else counters (storage c) k))) \<and>
     (hits \<noteq> [] \<and> \<not> reuse_threshold icfg \<le> similarity (hd hits)
        \<and> \<not> (similarity_threshold icfg \<le> similarity (hd hits)
               \<and> (\<exists>h \<in> set hits. success (entry h))) \<longrightarrow>
        r = \<lparr>decision = EXECUTE, cache_hit = None, context_hints = None\<rparr>
        \<and> counters (storage c') = counters (storage c))"
proof -
  obtain hits c1 where s: "search E cfg tname iargs None c = (Inr hits, c1)"
    using search_succeeds[OF ok f] by blast
  have c1: "storage c1 = storage c"
    using search_storage[of E cfg tname iargs None c] s by simp
  have ok1: "storage_ok (storage c1)" using ok c1 by simp
  have d': "distinct (map fst (vs_search E (vector_store c) (embed E (serialize_args E iargs))
                 (case None of None \<Rightarrow> top_k cfg | Some v \<Rightarrow> if v = 0 then top_k cfg else v) tname))"
    using d by simp
  note sh = search_hits[OF ok s d']
  have stored: "counters (storage c) (entry_id (entry h)) \<noteq> None" if "h \<in> set hits" for h
    using sh that by (simp add: counters_def)
  have dist: "distinct (map (\<lambda>h. entry_id (entry h)) hits)" using sh by simp
  let ?succ = "filter (\<lambda>h. success (entry h)) hits"
  have fe: "(?succ \<noteq> []) = (\<exists>h \<in> set hits. success (entry h))"
    by (simp add: filter_empty_conv)
  show ?thesis
  proof (cases hits)
    case Nil
    then have "decide E icfg cfg tname iargs c
                 = (Inr \<lparr>decision = EXECUTE, cache_hit = None, context_hints = None\<rparr>, c1)"
      using s by (simp add: decide_def)
    then show ?thesis using s Nil c1 by simp
  next
    case (Cons b bs)
    show ?thesis
    proof (cases "reuse_threshold icfg \<le> similarity b")
      case True
      obtain x where x: "fst (increment_reuse E cfg (entry_id (entry b)) c1) = Inr x"
        using increment_reuse_no_error[OF ok1 f] by blast
      let ?c' = "snd (increment_reuse E cfg (entry_id (entry b)) c1)"
      have dec: "decide E icfg cfg tname iargs c
                   = (Inr \<lparr>decision = REUSE, cache_hit = Some b, context_hints = None\<rparr>, ?c')"
        using s Cons True x
        by (cases "increment_reuse E cfg (entry_id (entry b)) c1") (simp add: decide_def)
      have cnt: "counters (storage ?c') k
                 = (if k = entry_id (entry b)
                    then map_option (\<lambda>(r, p). (r + 1, p)) (counters (storage c) k)
                    else counters (storage c) k)" for k
        using counters_increment_reuse[of E cfg "entry_id (entry b)" c1 k] c1 by simp
      show ?thesis
        using s dec cnt stored[of b] Cons True by auto
    next
      case False
      show ?thesis
      proof (cases "similarity_threshold icfg \<le> similarity b \<and> (\<exists>h \<in> set hits. success (entry h))")
        case True
        let ?hints = "take 3 ?succ"
        have sub: "set ?hints \<subseteq> set hits"
          using set_take_subset[of 3 ?succ] by auto
        have dh: "distinct (map (\<lambda>h. entry_id (entry h)) ?hints)"
          using dist by (simp add: distinct_map_filter take_map[symmetric] distinct_take)
        note eff = increment_context_all_effect[OF ok1 f dh, of E]
        let ?c' = "snd (increment_context_all E cfg ?hints c1)"
        have dec: "decide E icfg cfg tname iargs c
                     = (Inr \<lparr>decision = PROVIDE_CONTEXT, cache_hit = None,
                             context_hints = Some ?hints\<rparr>, ?c')"
          using s Cons False True fe eff
          by (cases "increment_context_all E cfg ?hints c1") (simp add: decide_def Let_def)
        have cnt: "\<forall>k. counters (storage ?c') k
                 = (if k \<in> (\<lambda>h. entry_id (entry h)) ` set ?hints
                    then map_option (\<lambda>(r, p). (r, p + 1)) (counters (storage c) k)
                    else counters (storage c) k)"
          using eff c1 by simp
        have st: "\<forall>h \<in> set ?hints. counters (storage c) (entry_id (entry h)) \<noteq> None"
          using stored sub by blast
        show ?thesis
          using s dec cnt st Cons False True by auto
      next
        case F2: False
        have "decide E icfg cfg tname iargs c
                 = (Inr \<lparr>decision = EXECUTE, cache_hit = None, context_hints = None\<rparr>, c1)"
          using s Cons False F2 fe by (auto simp: decide_def)
        then show ?thesis using s Cons False F2 c1 by auto
      qed
    qed
  qed
qed


theorem decide_classifies_witness:
  "(\<exists>hits c1 r c'.
      search demo_collaborators demo_config ''search'' [(''query'', ''a'')] None cache_b_saved
        = (Inr hits, c1)
      \<and> decide demo_collaborators demo_config demo_config ''search'' [(''query'', ''a'')] cache_b_saved
          = (Inr r, c')
      \<and> hits = [\<lparr>entry = entry_b_saved, similarity = 9 / 10, weighted_score = 9 / 10\<rparr>]
      \<and> r = \<lparr>decision = PROVIDE_CONTEXT, cache_hit = None, context_hints = Some hits\<rparr>
      \<and> counters (storage cache_b_saved) key_b = Some (0, 0)
      \<and> counters (storage c') key_b = Some (0, 1))
   \<and> (\<exists>hits c1 r c'.
      search demo_collaborators demo_config ''search'' [(''query'', ''a'')] None cache_b_saved
        = (Inr hits, c1)
      \<and> decide demo_collaborators (demo_config\<lparr>reuse_threshold := 8 / 10\<rparr>) demo_config ''search''
            [(''query'', ''a'')] cache_b_saved = (Inr r, c')
      \<and> r = \<lparr>decision = REUSE, cache_hit = Some (hd hits), context_hints = None\<rparr>
      \<and> counters (storage c') key_b = Some (1, 0))
   \<and> (\<exists>c1 r c'.
      search demo_collaborators demo_config ''search'' [(''query'', ''a'')] None empty_cache
        = (Inr [], c1)
      \<and> decide demo_collaborators demo_config demo_config ''search'' [(''query'', ''a'')] empty_cache
          = (Inr r, c')
      \<and> r = \<lparr>decision = EXECUTE, cache_hit = None, context_hints = None\<rparr>
      \<and> counters (storage c') = counters (storage empty_cache))"
proof -
  let ?hit = "\<lparr>entry = entry_b_saved, similarity = 9 / 10, weighted_score = 9 / 10\<rparr>"
  have ok: "storage_ok (storage cache_b_saved)"
    unfolding cache_b_saved_def by (intro apply_op_ok) (simp add: empty_cache_def storage_ok_def)
  have ok0: "storage_ok (storage empty_cache)"
    by (simp add: empty_cache_def storage_ok_def)
  have f: "0 \<le> reuse_context_factor demo_config" "reuse_context_factor demo_config \<le> 1"
    by (simp_all add: demo_config_def)
  have d: "distinct (map fst (vs_search demo_collaborators (vector_store cache_b_saved)
             (embed demo_collaborators (serialize_args demo_collaborators [(''query'', ''a'')]))
             (top_k demo_config) ''search''))"
    by (simp add: cache_b_saved_def demo_defs cache_defs)
  have d0: "distinct (map fst (vs_search demo_collaborators (vector_store empty_cache)
             (embed demo_collaborators (serialize_args demo_collaborators [(''query'', ''a'')]))
             (top_k demo_config) ''search''))"
    by (simp add: demo_defs cache_defs)
  have sv: "fst (search demo_collaborators demo_config ''search'' [(''query'', ''a'')] None cache_b_saved)
              = Inr [?hit]"
    by (simp add: cache_b_saved_def entry_b_saved_def demo_defs cache_defs decide_defs)
  have sv0: "fst (search demo_collaborators demo_config ''search'' [(''query'', ''a'')] None empty_cache)
              = Inr []"
    by (simp add: demo_defs cache_defs decide_defs)
  have hv: "entry_id (entry ?hit) = key_b" "success (entry ?hit)"
    by (simp_all add: entry_b_saved_def fresh_entry_def demo_defs)
  have c0: "counters (storage cache_b_saved) key_b = Some (0, 0)"
    by (simp add: cache_b_saved_def counters_def demo_defs cache_defs)
  have th: "\<not> reuse_threshold demo_config \<le> (9 / 10 :: real)"
           "similarity_threshold demo_config \<le> (9 / 10 :: real)"
           "reuse_threshold (demo_config\<lparr>reuse_threshold := 8 / 10\<rparr>) \<le> (9 / 10 :: real)"
    by (simp_all add: demo_config_def)
  from decide_classifies[OF ok f d, of demo_config]
  obtain hits c1 r c' where
    a: "search demo_collaborators demo_config ''search'' [(''query'', ''a'')] None cache_b_saved
          = (Inr hits, c1)"
       "decide demo_collaborators demo_config demo_config ''search'' [(''query'', ''a'')] cache_b_saved
          = (Inr r, c')"
    and a3: "hits \<noteq> [] \<and> \<not> reuse_threshold demo_config \<le> similarity (hd hits)
        \<and> similarity_threshold demo_config \<le> similarity (hd hits)
        \<and> (\<exists>h \<in> set hits. success (entry h)) \<longrightarrow>
        r = \<lparr>decision = PROVIDE_CONTEXT, cache_hit = None,
              context_hints = Some (take 3 (filter (\<lambda>h. success (entry h)) hits))\<rparr>
        \<and> (\<forall>h \<in> set (take 3 (filter (\<lambda>h. success (entry h)) hits)).
               counters (storage cache_b_saved) (entry_id (entry h)) \<noteq> None)
        \<and> (\<forall>k. counters (storage c') k
                 = (if k \<in> (\<lambda>h. entry_id (entry h)) ` set (take 3 (filter (\<lambda>h. success (entry h)) hits))
                    then map_option (\<lambda>(r, p). (r, p + 1)) (counters (storage cache_b_saved) k)
                    else counters (storage cache_b_saved) k))"
    by blast
  have h1: "hits = [?hit]" using a(1) sv by simp
  have p1: "r = \<lparr>decision = PROVIDE_CONTEXT, cache_hit = None, context_hints = Some hits\<rparr>
            \<and> counters (storage c') key_b = Some (0, 1)"
    using a3 h1 hv th c0 by simp
  from decide_classifies[OF ok f d, of "demo_config\<lparr>reuse_threshold := 8 / 10\<rparr>"]
  obtain hits2 c12 r2 c2' where
    b: "search demo_collaborators demo_config ''search'' [(''query'', ''a'')] None cache_b_saved
          = (Inr hits2, c12)"
       "decide demo_collaborators (demo_config\<lparr>reuse_threshold := 8 / 10\<rparr>) demo_config ''search''
            [(''query'', ''a'')] cache_b_saved = (Inr r2, c2')"
    and b2: "hits2 \<noteq> [] \<and> reuse_threshold (demo_config\<lparr>reuse_threshold := 8 / 10\<rparr>)
                            \<le> similarity (hd hits2) \<longrightarrow>
        r2 = \<lparr>decision = REUSE, cache_hit = Some (hd hits2), context_hints = None\<rparr>
        \<and> counters (storage cache_b_saved) (entry_id (entry (hd hits2))) \<noteq> None
        \<and> (\<forall>k. counters (storage c2') k
                 = (if k = entry_id (entry (hd hits2))
                    then map_option (\<lambda>(r, p). (r + 1, p)) (counters (storage cache_b_saved) k)
                    else counters (storage cache_b_saved) k))"
    by blast
  have h2: "hits2 = [?hit]" using b(1) sv by simp
  have p2: "r2 = \<lparr>decision = REUSE, cache_hit = Some (hd hits2), context_hints = None\<rparr>
            \<and> counters (storage c2') key_b = Some (1, 0)"
    using b2 h2 hv th c0 by simp
  from decide_classifies[OF ok0 f d0, of demo_config]
  obtain hits3 c13 r3 c3' where
    c: "search demo_collaborators demo_config ''search'' [(''query'', ''a'')] None empty_cache
          = (Inr hits3, c13)"
       "decide demo_collaborators demo_config demo_config ''search'' [(''query'', ''a'')] empty_cache
          = (Inr r3, c3')"
    and c1: "hits3 = [] \<longrightarrow>
        r3 = \<lparr>decision = EXECUTE, cache_hit = None, context_hints = None\<rparr>
        \<and> counters (storage c3') = counters (storage empty_cache)"
    by blast
  have h3: "hits3 = []" using c(1) sv0 by simp
  from a p1 h1 c0 b p2 c c1 h3 show ?thesis by blast
qed

end
